theory Spec2Isabelle
  imports Main "HOL-Library.Word"
begin

section \<open>The object database as the bindings see it\<close>

text \<open>
  The bindings in \<^verbatim>\<open>ext/rugged\<close> call libgit2. An object id is 20 raw bytes; an object
  database maps ids to decoded objects. A commit keeps the id of its tree, the ordered ids
  of its parents and two signatures. A tree is kept as its files (path and lines), which is
  all a line-counting diff can observe. An annotated tag keeps the id of its target.
\<close>

type_synonym git_oid = "160 word"

datatype git_otype =
  GIT_OBJ_ANY | GIT_OBJ_BAD | GIT_OBJ_COMMIT | GIT_OBJ_TREE | GIT_OBJ_BLOB | GIT_OBJ_TAG

record git_signature =
  sig_name :: string
  sig_email :: string
  sig_when :: int

record commit_data =
  tree_id :: git_oid
  parent_ids :: "git_oid list"
  author :: git_signature
  committer :: git_signature

type_synonym tree_data = "(string \<times> string list) list"

datatype odb_object =
  CommitObj commit_data
| TreeObj tree_data
| BlobObj string
| TagObj git_oid

type_synonym git_repository = "git_oid \<rightharpoonup> odb_object"

text \<open>An object in memory: its id and its decoded content.\<close>

type_synonym git_object = "git_oid \<times> odb_object"
type_synonym git_commit = "git_oid \<times> commit_data"
type_synonym git_tree = "git_oid \<times> tree_data"

subsection \<open>Failures\<close>

text \<open>
  A libgit2 call returns 0 or a negative code and records the class and message of the last
  error (\<^verbatim>\<open>giterr_set\<close>). \<^verbatim>\<open>rugged_exception_check\<close> raises on a negative code; the
  bindings also raise Ruby's own \<^verbatim>\<open>TypeError\<close> and \<^verbatim>\<open>ArgumentError\<close>.
\<close>

datatype giterr_class = GITERR_INVALID | GITERR_ODB | GITERR_OS | GITERR_REFERENCE | GITERR_MERGE

datatype git_failure = Failure (code: int) (error_class: giterr_class) (error_message: string)

definition GIT_ERROR :: int where "GIT_ERROR = -1"
definition GIT_ENOTFOUND :: int where "GIT_ENOTFOUND = -3"
definition GIT_EAMBIGUOUS :: int where "GIT_EAMBIGUOUS = -5"

datatype rb_exception =
  RuggedError git_failure
| TypeError string
| ArgError string
| RangeError string
| SystemCallError int

definition rugged_exception_check :: "git_failure + 'a \<Rightarrow> rb_exception + 'a" where
  "rugged_exception_check r = (case r of Inl f \<Rightarrow> Inl (RuggedError f) | Inr x \<Rightarrow> Inr x)"

subsection \<open>The accessors of libgit2 the bindings use\<close>

definition git_object_type :: "git_object \<Rightarrow> git_otype" where
  "git_object_type ob =
     (case snd ob of
        CommitObj _ \<Rightarrow> GIT_OBJ_COMMIT
      | TreeObj _ \<Rightarrow> GIT_OBJ_TREE
      | BlobObj _ \<Rightarrow> GIT_OBJ_BLOB
      | TagObj _ \<Rightarrow> GIT_OBJ_TAG)"

definition not_in_odb :: git_failure where
  "not_in_odb = Failure GIT_ENOTFOUND GITERR_ODB ''Object not found''"

definition type_mismatch :: git_failure where
  "type_mismatch =
     Failure GIT_ENOTFOUND GITERR_INVALID ''The requested type does not match the type in ODB''"

definition git_odb_exists :: "git_repository \<Rightarrow> git_oid \<Rightarrow> bool" where
  "git_odb_exists odb oid = (odb oid \<noteq> None)"

definition git_object_lookup ::
  "git_repository \<Rightarrow> git_oid \<Rightarrow> git_otype \<Rightarrow> git_failure + git_object" where
  "git_object_lookup repo oid ty =
     (case repo oid of
        None \<Rightarrow> Inl not_in_odb
      | Some d \<Rightarrow>
          if ty \<noteq> GIT_OBJ_ANY \<and> git_object_type (oid, d) \<noteq> ty then Inl type_mismatch
          else Inr (oid, d))"

definition git_commit_lookup :: "git_repository \<Rightarrow> git_oid \<Rightarrow> git_failure + git_commit" where
  "git_commit_lookup repo oid =
     (case repo oid of
        None \<Rightarrow> Inl not_in_odb
      | Some (CommitObj c) \<Rightarrow> Inr (oid, c)
      | Some _ \<Rightarrow> Inl type_mismatch)"

definition git_tree_lookup :: "git_repository \<Rightarrow> git_oid \<Rightarrow> git_failure + git_tree" where
  "git_tree_lookup repo oid =
     (case repo oid of
        None \<Rightarrow> Inl not_in_odb
      | Some (TreeObj t) \<Rightarrow> Inr (oid, t)
      | Some _ \<Rightarrow> Inl type_mismatch)"

definition git_commit_parentcount :: "git_commit \<Rightarrow> nat" where
  "git_commit_parentcount c = length (parent_ids (snd c))"

text \<open>\<^verbatim>\<open>git_commit_parent_id\<close> returns NULL when the index is out of range.\<close>

definition git_commit_parent_id :: "git_commit \<Rightarrow> nat \<Rightarrow> git_oid option" where
  "git_commit_parent_id c n =
     (if n < length (parent_ids (snd c)) then Some (parent_ids (snd c) ! n) else None)"

definition no_such_parent :: git_failure where
  "no_such_parent = Failure GIT_ENOTFOUND GITERR_INVALID ''Parent does not exist''"

definition git_commit_parent :: "git_repository \<Rightarrow> git_commit \<Rightarrow> nat \<Rightarrow> git_failure + git_commit" where
  "git_commit_parent repo c n =
     (case git_commit_parent_id c n of
        None \<Rightarrow> Inl no_such_parent
      | Some p \<Rightarrow> git_commit_lookup repo p)"

definition git_commit_tree :: "git_repository \<Rightarrow> git_commit \<Rightarrow> git_failure + git_tree" where
  "git_commit_tree repo c = git_tree_lookup repo (tree_id (snd c))"

subsection \<open>Ruby values\<close>

record commit_stats =
  adds :: "64 word"
  dels :: "64 word"
  stats_committer :: git_signature
  stats_author :: git_signature
  stats_oid :: git_oid

datatype rb_value =
  Qnil
| Qfalse
| Qtrue
| Fixnum int
| RString string
| RArray "rb_value list"
| RObject git_object
| RStats commit_stats

text \<open>
  \<^verbatim>\<open>rugged_object_new\<close> wraps an object in the Ruby class of its type. Its
  \<^verbatim>\<open>default\<close> branch (an invalid type) cannot be reached from a decoded object.
\<close>

definition rugged_object_new :: "git_object \<Rightarrow> rb_value" where
  "rugged_object_new ob = RObject ob"

definition commit_object :: "git_commit \<Rightarrow> git_object" where
  "commit_object c = (fst c, CommitObj (snd c))"

definition tree_object :: "git_tree \<Rightarrow> git_object" where
  "tree_object t = (fst t, TreeObj (snd t))"

text \<open>The id as Ruby sees it: a String of 40 hexadecimal digits.\<close>

definition git_oid_fmt :: "git_oid \<Rightarrow> string" where
  "git_oid_fmt oid =
     map (\<lambda>i. ''0123456789abcdef'' ! unat (take_bit 4 (drop_bit (4 * (39 - i)) oid))) [0..<40]"

definition rugged_create_oid :: "git_oid \<Rightarrow> rb_value" where
  "rugged_create_oid oid = RString (git_oid_fmt oid)"

subsection \<open>Diffs, and the library calls taken as given\<close>

datatype git_diff_line_origin =
  GIT_DIFF_LINE_CONTEXT
| GIT_DIFF_LINE_ADDITION
| GIT_DIFF_LINE_DELETION
| GIT_DIFF_LINE_CONTEXT_EOFNL
| GIT_DIFF_LINE_ADD_EOFNL
| GIT_DIFF_LINE_DEL_EOFNL
| GIT_DIFF_LINE_FILE_HDR
| GIT_DIFF_LINE_HUNK_HDR
| GIT_DIFF_LINE_BINARY

record git_diff_delta =
  old_file_path :: string
  new_file_path :: string

record git_diff_line =
  origin :: git_diff_line_origin
  content :: string

text \<open>
  A diff is kept as what \<^verbatim>\<open>git_diff_foreach\<close> does with it when only a line callback is
  given: the deltas and lines it hands to the callback, in order, and the failure it ends
  with, if any. The hunk argument is left out: no callback of the bindings reads it.
\<close>

record git_diff =
  diff_lines :: "(git_diff_delta \<times> git_diff_line) list"
  foreach_failure :: "git_failure option"

text \<open>A revision walker is kept as the calls made on it so far.\<close>

datatype tip = TipOid git_oid | TipRef string

record git_revwalk =
  sorting :: int
  pushed :: "tip list"
  hidden :: "tip list"
  first_parent :: bool

definition git_revwalk_new :: git_revwalk where
  "git_revwalk_new = \<lparr>sorting = 0, pushed = [], hidden = [], first_parent = False\<rparr>"

definition GIT_SORT_TIME :: int where "GIT_SORT_TIME = 2"

text \<open>
  The algorithms of libgit2 are parameters of the development: revision parsing, hex
  decoding, prefix lookup, the tree diff, merge bases, the number of processors, and the
  revision walk: whether a tip
  can be pushed or hidden, and the ids that successive \<^verbatim>\<open>git_revwalk_next\<close> calls
  deliver before the walk ends, with \<^verbatim>\<open>GIT_ITEROVER\<close> (\<open>None\<close>) or with a failure.
\<close>

record git_library =
  git_revparse_single :: "git_repository \<Rightarrow> string \<Rightarrow> git_failure + git_object"
  git_oid_fromstr :: "string \<Rightarrow> git_failure + git_oid"
  git_oid_fromstrn :: "string \<Rightarrow> 64 word \<Rightarrow> git_failure + git_oid"
  git_object_lookup_prefix ::
    "git_repository \<Rightarrow> git_oid \<Rightarrow> 64 word \<Rightarrow> git_otype \<Rightarrow> git_failure + git_object"
  git_diff_tree_to_tree ::
    "git_repository \<Rightarrow> git_tree option \<Rightarrow> git_tree option \<Rightarrow> git_failure + git_diff"
  git_merge_bases_many ::
    "git_repository \<Rightarrow> git_oid list \<Rightarrow> git_failure + (git_oid \<times> git_oid list)"
  git_revwalk_push_check :: "git_repository \<Rightarrow> tip \<Rightarrow> bool \<Rightarrow> git_failure option"
  git_revwalk_run :: "git_repository \<Rightarrow> git_revwalk \<Rightarrow> git_oid list \<times> git_failure option"
  git_online_cpus :: nat

section \<open>\<^verbatim>\<open>rugged_commit.c\<close>: the parents of a commit\<close>

text \<open>The loop of \<^verbatim>\<open>rb_git_commit_parents_GET\<close>, from index \<open>n\<close> with \<open>k\<close> rounds left.\<close>

fun parents_loop ::
  "git_repository \<Rightarrow> git_commit \<Rightarrow> nat \<Rightarrow> nat \<Rightarrow> rb_value list \<Rightarrow> rb_exception + rb_value list" where
  "parents_loop repo commit n 0 ret_arr = Inr ret_arr"
| "parents_loop repo commit n (Suc k) ret_arr =
     (case rugged_exception_check (git_commit_parent repo commit n) of
        Inl e \<Rightarrow> Inl e
      | Inr parent \<Rightarrow>
          parents_loop repo commit (Suc n) k (ret_arr @ [rugged_object_new (commit_object parent)]))"

definition rb_git_commit_parents_GET :: "git_repository \<Rightarrow> git_commit \<Rightarrow> rb_exception + rb_value" where
  "rb_git_commit_parents_GET repo commit =
     (case parents_loop repo commit 0 (git_commit_parentcount commit) [] of
        Inl e \<Rightarrow> Inl e
      | Inr ret_arr \<Rightarrow> Inr (RArray ret_arr))"

definition rb_git_commit_parent_GET :: "git_repository \<Rightarrow> git_commit \<Rightarrow> rb_exception + rb_value" where
  "rb_git_commit_parent_GET repo commit =
     (if git_commit_parentcount commit > 0 then
        (case rugged_exception_check (git_commit_parent repo commit 0) of
           Inl e \<Rightarrow> Inl e
         | Inr parent \<Rightarrow> Inr (rugged_object_new (commit_object parent)))
      else Inr Qnil)"

section \<open>\<^verbatim>\<open>rugged_commit_stats.c\<close>: added and deleted lines of a commit\<close>

text \<open>The callback counts in two C \<^verbatim>\<open>int\<close>s, here 32-bit words that wrap.\<close>

record rb_git_commit_stats_cb_args =
  args_adds :: "32 word"
  args_dels :: "32 word"
  path_only :: "string option"

definition git_commit_stats_cb ::
  "git_diff_delta \<Rightarrow> git_diff_line \<Rightarrow> rb_git_commit_stats_cb_args \<Rightarrow> rb_git_commit_stats_cb_args" where
  "git_commit_stats_cb delta line args =
     (if path_only args = None \<or>
         (path_only args = Some (old_file_path delta) \<and> path_only args = Some (new_file_path delta))
      then (case origin line of
              GIT_DIFF_LINE_ADDITION \<Rightarrow> args\<lparr>args_adds := args_adds args + 1\<rparr>
            | GIT_DIFF_LINE_DELETION \<Rightarrow> args\<lparr>args_dels := args_dels args + 1\<rparr>
            | _ \<Rightarrow> args)
      else args)"

text \<open>
  \<^verbatim>\<open>git_commit_stats_of\<close> writes the two counts through \<^verbatim>\<open>size_t\<close> pointers (the
  \<^verbatim>\<open>int\<close> is sign-extended). When it returns a failure its callers free the statistics,
  so the counts are returned on success only.
\<close>

definition git_commit_stats_of ::
  "git_library \<Rightarrow> git_repository \<Rightarrow> git_tree \<Rightarrow> git_tree option \<Rightarrow> string option \<Rightarrow>
     git_failure + (64 word \<times> 64 word)" where
  "git_commit_stats_of L repo tree parent_tree path =
     (case git_diff_tree_to_tree L repo parent_tree (Some tree) of
        Inl f \<Rightarrow> Inl f
      | Inr diff \<Rightarrow>
          (let args = fold (\<lambda>(delta, line). git_commit_stats_cb delta line) (diff_lines diff)
                        \<lparr>args_adds = 0, args_dels = 0, path_only = path\<rparr>
           in case foreach_failure diff of
                Some f \<Rightarrow> Inl f
              | None \<Rightarrow> Inr (scast (args_adds args), scast (args_dels args))))"

text \<open>
  The tree of the first parent, or NULL when \<^verbatim>\<open>git_commit_parent\<close> answers
  \<^verbatim>\<open>GIT_ENOTFOUND\<close>.
\<close>

definition first_parent_tree :: "git_repository \<Rightarrow> git_commit \<Rightarrow> git_failure + git_tree option" where
  "first_parent_tree repo commit =
     (case git_commit_parent repo commit 0 of
        Inr parent_commit \<Rightarrow>
          (case git_commit_tree repo parent_commit of Inl f \<Rightarrow> Inl f | Inr t \<Rightarrow> Inr (Some t))
      | Inl f \<Rightarrow> if code f = GIT_ENOTFOUND then Inr None else Inl f)"

definition new_commit_stats :: "git_commit \<Rightarrow> commit_stats" where
  "new_commit_stats commit =
     \<lparr>adds = 0, dels = 0, stats_committer = committer (snd commit),
      stats_author = author (snd commit), stats_oid = fst commit\<rparr>"

definition rugged_commit_stats_of ::
  "git_library \<Rightarrow> git_repository \<Rightarrow> git_commit \<Rightarrow> string option \<Rightarrow> rb_exception + commit_stats" where
  "rugged_commit_stats_of L repo commit path =
     (case rugged_exception_check (git_commit_tree repo commit) of
        Inl e \<Rightarrow> Inl e
      | Inr tree \<Rightarrow>
          (case rugged_exception_check (first_parent_tree repo commit) of
             Inl e \<Rightarrow> Inl e
           | Inr parent_tree \<Rightarrow>
               (case rugged_exception_check (git_commit_stats_of L repo tree parent_tree path) of
                  Inl e \<Rightarrow> Inl e
                | Inr (a, d) \<Rightarrow> Inr ((new_commit_stats commit)\<lparr>adds := a, dels := d\<rparr>))))"

text \<open>The readers cast the count to \<^verbatim>\<open>int\<close> before making a Fixnum of it.\<close>

definition rb_git_commit_stats_adds_GET :: "commit_stats \<Rightarrow> rb_value" where
  "rb_git_commit_stats_adds_GET stats = Fixnum (sint (ucast (adds stats) :: 32 word))"

definition rb_git_commit_stats_dels_GET :: "commit_stats \<Rightarrow> rb_value" where
  "rb_git_commit_stats_dels_GET stats = Fixnum (sint (ucast (dels stats) :: 32 word))"

section \<open>\<^verbatim>\<open>rugged_revwalk.c\<close>: the bulk walk\<close>

subsection \<open>Option hashes\<close>

text \<open>An option hash maps symbol names to values; a missing key reads as \<^verbatim>\<open>nil\<close>.\<close>

type_synonym rb_hash = "string \<rightharpoonup> rb_value"

definition rb_hash_lookup :: "rb_hash \<Rightarrow> string \<Rightarrow> rb_value" where
  "rb_hash_lookup h k = (case h k of None \<Rightarrow> Qnil | Some v \<Rightarrow> v)"

definition NIL_P :: "rb_value \<Rightarrow> bool" where
  "NIL_P v = (v = Qnil)"

definition RTEST :: "rb_value \<Rightarrow> bool" where
  "RTEST v = (v \<noteq> Qnil \<and> v \<noteq> Qfalse)"

text \<open>\<^verbatim>\<open>Check_Type(v, T_FIXNUM)\<close> followed by \<^verbatim>\<open>FIX2ULONG(v)\<close>, a cast to unsigned long.\<close>

definition checked_FIX2ULONG :: "rb_value \<Rightarrow> rb_exception + 64 word" where
  "checked_FIX2ULONG v =
     (case v of
        Fixnum n \<Rightarrow> Inr (word_of_int n)
      | _ \<Rightarrow> Inl (TypeError ''wrong argument type (expected Fixnum)''))"

text \<open>\<^verbatim>\<open>Check_Type(v, T_FIXNUM)\<close> followed by \<^verbatim>\<open>FIX2INT(v)\<close>, which checks the range.\<close>

definition checked_FIX2INT :: "rb_value \<Rightarrow> rb_exception + int" where
  "checked_FIX2INT v =
     (case v of
        Fixnum n \<Rightarrow>
          if - (2 ^ 31) \<le> n \<and> n < 2 ^ 31 then Inr n
          else Inl (RangeError ''integer too big to convert to int'')
      | _ \<Rightarrow> Inl (TypeError ''wrong argument type (expected Fixnum)''))"

text \<open>
  \<^verbatim>\<open>StringValueCStr\<close> hands a String over as a C string, and raises an
  \<^verbatim>\<open>ArgumentError\<close> when the String holds a NUL byte.
\<close>

definition StringValueCStr :: "string \<Rightarrow> rb_exception + string" where
  "StringValueCStr str =
     (if CHR 0x00 \<in> set str then Inl (ArgError ''string contains null byte'') else Inr str)"

subsection \<open>Pushing and hiding tips\<close>

definition push_commit_oid ::
  "git_library \<Rightarrow> git_repository \<Rightarrow> git_revwalk \<Rightarrow> git_oid \<Rightarrow> bool \<Rightarrow> rb_exception + git_revwalk" where
  "push_commit_oid L repo walk oid hide =
     (case git_revwalk_push_check L repo (TipOid oid) hide of
        Some f \<Rightarrow> Inl (RuggedError f)
      | None \<Rightarrow>
          Inr (if hide then walk\<lparr>hidden := hidden walk @ [TipOid oid]\<rparr>
               else walk\<lparr>pushed := pushed walk @ [TipOid oid]\<rparr>))"

definition push_commit_ref ::
  "git_library \<Rightarrow> git_repository \<Rightarrow> git_revwalk \<Rightarrow> string \<Rightarrow> bool \<Rightarrow> rb_exception + git_revwalk" where
  "push_commit_ref L repo walk ref hide =
     (case git_revwalk_push_check L repo (TipRef ref) hide of
        Some f \<Rightarrow> Inl (RuggedError f)
      | None \<Rightarrow>
          Inr (if hide then walk\<lparr>hidden := hidden walk @ [TipRef ref]\<rparr>
               else walk\<lparr>pushed := pushed walk @ [TipRef ref]\<rparr>))"

text \<open>
  A Rugged object is pushed by its id; a String of 40 characters that decodes as an id, by
  that id; any other String falls through to the last line and is pushed as a reference
  name.
\<close>

definition push_commit_1 ::
  "git_library \<Rightarrow> git_repository \<Rightarrow> git_revwalk \<Rightarrow> rb_value \<Rightarrow> bool \<Rightarrow> rb_exception + git_revwalk" where
  "push_commit_1 L repo walk rb_commit hide =
     (case rb_commit of
        RObject object \<Rightarrow> push_commit_oid L repo walk (fst object) hide
      | RString str \<Rightarrow>
          (case (if length str = 40
                 then (case git_oid_fromstr L str of Inr commit_oid \<Rightarrow> Some commit_oid | Inl _ \<Rightarrow> None)
                 else None) of
             Some commit_oid \<Rightarrow> push_commit_oid L repo walk commit_oid hide
           | None \<Rightarrow>
               (case StringValueCStr str of
                  Inl e \<Rightarrow> Inl e
                | Inr ref \<Rightarrow> push_commit_ref L repo walk ref hide))
      | _ \<Rightarrow> Inl (TypeError ''wrong argument type (expected String)''))"

fun push_commit_each ::
  "git_library \<Rightarrow> git_repository \<Rightarrow> git_revwalk \<Rightarrow> rb_value list \<Rightarrow> bool \<Rightarrow> rb_exception + git_revwalk" where
  "push_commit_each L repo walk [] hide = Inr walk"
| "push_commit_each L repo walk (v # vs) hide =
     (case push_commit_1 L repo walk v hide of
        Inl e \<Rightarrow> Inl e
      | Inr walk' \<Rightarrow> push_commit_each L repo walk' vs hide)"

definition push_commit ::
  "git_library \<Rightarrow> git_repository \<Rightarrow> git_revwalk \<Rightarrow> rb_value \<Rightarrow> bool \<Rightarrow> rb_exception + git_revwalk" where
  "push_commit L repo walk rb_commit hide =
     (case rb_commit of
        RArray vs \<Rightarrow> push_commit_each L repo walk vs hide
      | _ \<Rightarrow> push_commit_1 L repo walk rb_commit hide)"

subsection \<open>Loading the options\<close>

text \<open>
  The fields of \<^verbatim>\<open>struct walk_options\<close> that steer the loop. The three flags are C
  \<^verbatim>\<open>int\<close>s, tested against zero.
\<close>

record walk_options =
  oid_only :: int
  stats_only :: int
  no_merges :: int
  offset :: "64 word"
  limit :: "64 word"

definition load_walk_limits :: "walk_options \<Rightarrow> rb_hash \<Rightarrow> rb_exception + walk_options" where
  "load_walk_limits w rb_options =
     (case (let rb_value = rb_hash_lookup rb_options ''offset'' in
            if \<not> NIL_P rb_value then
              (case checked_FIX2ULONG rb_value of
                 Inl e \<Rightarrow> Inl e
               | Inr n \<Rightarrow> Inr (w\<lparr>offset := n\<rparr>))
            else Inr w) of
        Inl e \<Rightarrow> Inl e
      | Inr w1 \<Rightarrow>
     (case (let rb_value = rb_hash_lookup rb_options ''limit'' in
            if \<not> NIL_P rb_value then
              (case checked_FIX2ULONG rb_value of
                 Inl e \<Rightarrow> Inl e
               | Inr n \<Rightarrow> Inr (w1\<lparr>limit := n\<rparr>))
            else Inr w1) of
        Inl e \<Rightarrow> Inl e
      | Inr w2 \<Rightarrow>
          (let w3 = (if RTEST (rb_hash_lookup rb_options ''no_merges'')
                     then w2\<lparr>no_merges := 1\<rparr> else w2)
           in Inr (if RTEST (rb_hash_lookup rb_options ''stats_only'')
                   then w3\<lparr>no_merges := 1, stats_only := 1\<rparr> else w3))))"

definition load_all_options ::
  "git_library \<Rightarrow> git_repository \<Rightarrow> walk_options \<times> git_revwalk \<Rightarrow> rb_hash \<Rightarrow>
     rb_exception + (walk_options \<times> git_revwalk)" where
  "load_all_options L repo ww rb_options =
     (case load_walk_limits (fst ww) rb_options of
        Inl e \<Rightarrow> Inl e
      | Inr w \<Rightarrow>
     (case (let rb_sort = rb_hash_lookup rb_options ''sort'' in
            if \<not> NIL_P rb_sort then
              (case checked_FIX2INT rb_sort of
                 Inl e \<Rightarrow> Inl e
               | Inr m \<Rightarrow> Inr ((snd ww)\<lparr>sorting := m\<rparr>))
            else Inr (snd ww)) of
        Inl e \<Rightarrow> Inl e
      | Inr walk1 \<Rightarrow>
     (case (let rb_show = rb_hash_lookup rb_options ''show'' in
            if \<not> NIL_P rb_show then push_commit L repo walk1 rb_show False else Inr walk1) of
        Inl e \<Rightarrow> Inl e
      | Inr walk2 \<Rightarrow>
     (case (let rb_hide = rb_hash_lookup rb_options ''hide'' in
            if \<not> NIL_P rb_hide then push_commit L repo walk2 rb_hide True else Inr walk2) of
        Inl e \<Rightarrow> Inl e
      | Inr walk3 \<Rightarrow>
          (let walk4 = (if RTEST (rb_hash_lookup rb_options ''simplify'')
                        then walk3\<lparr>first_parent := True\<rparr> else walk3)
           in Inr (if RTEST (rb_hash_lookup rb_options ''oid_only'')
                   then w\<lparr>oid_only := 1\<rparr> else w, walk4))))))"

subsection \<open>One commit of the walk\<close>

definition rb_git_walker_stats_cb ::
  "git_diff_delta \<Rightarrow> git_diff_line \<Rightarrow> commit_stats \<Rightarrow> commit_stats" where
  "rb_git_walker_stats_cb delta line stats =
     (case origin line of
        GIT_DIFF_LINE_ADDITION \<Rightarrow> stats\<lparr>adds := adds stats + 1\<rparr>
      | GIT_DIFF_LINE_DELETION \<Rightarrow> stats\<lparr>dels := dels stats + 1\<rparr>
      | _ \<Rightarrow> stats)"

text \<open>\<^verbatim>\<open>apply_walk_options\<close> returns \<^verbatim>\<open>nil\<close> for a commit to skip, or raises.\<close>

definition apply_walk_options ::
  "git_library \<Rightarrow> git_repository \<Rightarrow> walk_options \<Rightarrow> git_commit \<Rightarrow> rb_exception + rb_value" where
  "apply_walk_options L repo w commit =
     (if no_merges w \<noteq> 0 \<and> git_commit_parentcount commit > 1 then Inr Qnil
      else if stats_only w \<noteq> 0 then
        (case rugged_exception_check (git_commit_tree repo commit) of
           Inl e \<Rightarrow> Inl e
         | Inr tree \<Rightarrow>
        (case rugged_exception_check (first_parent_tree repo commit) of
           Inl e \<Rightarrow> Inl e
         | Inr right_tree \<Rightarrow>
        (case rugged_exception_check (git_diff_tree_to_tree L repo right_tree (Some tree)) of
           Inl e \<Rightarrow> Inl e
         | Inr diff \<Rightarrow>
             (let stats = fold (\<lambda>(delta, line). rb_git_walker_stats_cb delta line)
                            (diff_lines diff) (new_commit_stats commit)
              in case foreach_failure diff of
                   Some f \<Rightarrow> Inl (RuggedError f)
                 | None \<Rightarrow> Inr (RStats stats)))))
      else Inr (rugged_object_new (commit_object commit)))"

subsection \<open>The loop\<close>

text \<open>
  \<^verbatim>\<open>do_walk\<close> (the body of its loop, up to the yield, is \<open>walk_one\<close>) over the ids
  that \<^verbatim>\<open>git_revwalk_next\<close> delivers, and the failure the walker ends with (\<open>None\<close> for
  \<^verbatim>\<open>GIT_ITEROVER\<close>). The result is the list of the values yielded to the block, and the
  exception the loop ends with, if any. The block is taken to return normally.

  \<^verbatim>\<open>rb_protect\<close> returns \<^verbatim>\<open>nil\<close> when the protected call raises, and the loop tests
  the result against \<^verbatim>\<open>nil\<close> before it tests the exception state: a commit on which
  \<^verbatim>\<open>apply_walk_options\<close> raises is skipped like one it answers \<^verbatim>\<open>nil\<close> for.
\<close>

definition walk_one ::
  "git_library \<Rightarrow> git_repository \<Rightarrow> walk_options \<Rightarrow> git_oid \<Rightarrow> rb_exception + rb_value option" where
  "walk_one L repo w commit_oid =
     (if oid_only w \<noteq> 0 then Inr (Some (rugged_create_oid commit_oid))
      else (case rugged_exception_check (git_commit_lookup repo commit_oid) of
              Inl e \<Rightarrow> Inl e
            | Inr commit \<Rightarrow>
                (case apply_walk_options L repo w commit of
                   Inl e \<Rightarrow> Inr None
                 | Inr result \<Rightarrow> Inr (if result = Qnil then None else Some result))))"

fun do_walk ::
  "git_library \<Rightarrow> git_repository \<Rightarrow> walk_options \<Rightarrow> git_oid list \<Rightarrow> git_failure option \<Rightarrow>
     rb_value list \<times> rb_exception option" where
  "do_walk L repo w [] final =
     ([], case final of None \<Rightarrow> None | Some f \<Rightarrow> Some (RuggedError f))"
| "do_walk L repo w (commit_oid # rest) final =
     (if offset w > 0 then do_walk L repo (w\<lparr>offset := offset w - 1\<rparr>) rest final
      else
        (case walk_one L repo w commit_oid of
           Inl e \<Rightarrow> ([], Some e)
         | Inr None \<Rightarrow> do_walk L repo w rest final
         | Inr (Some result) \<Rightarrow>
             (let w' = w\<lparr>limit := limit w - 1\<rparr> in
              if limit w' = 0 then ([result], None)
              else (case do_walk L repo w' rest final of
                      (yielded, e) \<Rightarrow> (result # yielded, e)))))"

text \<open>
  \<^verbatim>\<open>Rugged::Walker.walk(repo, options)\<close> with a block. \<^verbatim>\<open>rb_git_walk\<close> initialises
  every field of its \<^verbatim>\<open>struct walk_options\<close> but \<^verbatim>\<open>no_merges\<close>, which starts with
  whatever the stack holds: the argument \<open>stack\<close>.
\<close>

definition rb_git_walk ::
  "git_library \<Rightarrow> git_repository \<Rightarrow> rb_hash option \<Rightarrow> int \<Rightarrow> rb_value list \<times> rb_exception option" where
  "rb_git_walk L repo rb_options stack =
     (let w = \<lparr>oid_only = 0, stats_only = 0, no_merges = stack, offset = 0, limit = - 1\<rparr> in
      case (case rb_options of
              None \<Rightarrow> Inr (w, git_revwalk_new)
            | Some h \<Rightarrow> load_all_options L repo (w, git_revwalk_new) h) of
        Inl e \<Rightarrow> ([], Some e)
      | Inr (w', walk) \<Rightarrow>
          (case git_revwalk_run L repo walk of (oids, final) \<Rightarrow> do_walk L repo w' oids final))"

section \<open>\<^verbatim>\<open>rugged_object.c\<close>: lookup, existence, commit-ish\<close>

datatype rb_class =
  rb_cRuggedObject | rb_cRuggedCommit | rb_cRuggedTagAnnotation | rb_cRuggedBlob | rb_cRuggedTree

definition class2otype :: "rb_class \<Rightarrow> git_otype" where
  "class2otype klass =
     (case klass of
        rb_cRuggedCommit \<Rightarrow> GIT_OBJ_COMMIT
      | rb_cRuggedTagAnnotation \<Rightarrow> GIT_OBJ_TAG
      | rb_cRuggedBlob \<Rightarrow> GIT_OBJ_BLOB
      | rb_cRuggedTree \<Rightarrow> GIT_OBJ_TREE
      | rb_cRuggedObject \<Rightarrow> GIT_OBJ_BAD)"

text \<open>
  Both functions read the length of the string into a C \<^verbatim>\<open>int\<close>
  (\<^verbatim>\<open>oid_length = (int)RSTRING_LEN(rb_hex)\<close>), compare it as an \<^verbatim>\<open>int\<close> with
  \<^verbatim>\<open>GIT_OID_HEXSZ\<close>, and pass it on as a \<^verbatim>\<open>size_t\<close>. The repository argument is
  taken to be a repository (\<^verbatim>\<open>rugged_check_repo\<close> passes).
\<close>

definition GIT_OID_HEXSZ :: "32 word" where "GIT_OID_HEXSZ = 40"

definition rb_git_object_lookup ::
  "git_library \<Rightarrow> rb_class \<Rightarrow> git_repository \<Rightarrow> rb_value \<Rightarrow> rb_exception + rb_value" where
  "rb_git_object_lookup L klass repo rb_hex =
     (let type = (if class2otype klass = GIT_OBJ_BAD then GIT_OBJ_ANY else class2otype klass) in
      case rb_hex of
        RString hex \<Rightarrow>
          (let oid_length = (word_of_nat (length hex) :: 32 word) in
           if GIT_OID_HEXSZ <s oid_length then Inl (TypeError ''The given OID is too long'')
           else
             (case rugged_exception_check (git_oid_fromstrn L hex (scast oid_length)) of
                Inl e \<Rightarrow> Inl e
              | Inr oid \<Rightarrow>
                  (case rugged_exception_check
                          (if oid_length <s GIT_OID_HEXSZ
                           then git_object_lookup_prefix L repo oid (scast oid_length) type
                           else git_object_lookup repo oid type) of
                     Inl e \<Rightarrow> Inl e
                   | Inr object \<Rightarrow> Inr (rugged_object_new object))))
      | _ \<Rightarrow> Inl (TypeError ''wrong argument type (expected String)''))"

definition rb_git_object_exists ::
  "git_library \<Rightarrow> rb_class \<Rightarrow> git_repository \<Rightarrow> rb_value \<Rightarrow> rb_exception + rb_value" where
  "rb_git_object_exists L klass repo rb_hex =
     (let type = (if class2otype klass = GIT_OBJ_BAD then GIT_OBJ_ANY else class2otype klass) in
      case rb_hex of
        RString hex \<Rightarrow>
          (let oid_length = (word_of_nat (length hex) :: 32 word) in
           if GIT_OID_HEXSZ <s oid_length then Inr Qfalse
           else
             (case git_oid_fromstrn L hex (scast oid_length) of
                Inl error \<Rightarrow> Inr Qfalse
              | Inr oid \<Rightarrow>
                  (case git_object_lookup_prefix L repo oid (scast oid_length) type of
                     Inl error \<Rightarrow> Inr Qfalse
                   | Inr object \<Rightarrow> Inr Qtrue)))
      | _ \<Rightarrow> Inl (TypeError ''wrong argument type (expected String)''))"

subsection \<open>Commit-ish\<close>

text \<open>
  The \<^verbatim>\<open>while\<close> loop of \<^verbatim>\<open>rugged_commitish\<close>: as long as the object is a tag, look
  its target up. The loop has no bound of its own, so not returning is the value \<open>None\<close>.
\<close>

partial_function (option) peel_tags ::
  "git_repository \<Rightarrow> git_object \<Rightarrow> (git_failure + git_object) option" where
  "peel_tags repo object =
     (case snd object of
        TagObj target \<Rightarrow>
          (case git_object_lookup repo target GIT_OBJ_ANY of
             Inl error \<Rightarrow> Some (Inl error)
           | Inr object' \<Rightarrow> peel_tags repo object')
      | _ \<Rightarrow> Some (Inr object))"

declare peel_tags.simps [code]

definition rugged_commitish ::
  "git_library \<Rightarrow> git_repository \<Rightarrow> string \<Rightarrow> (git_failure + git_commit) option" where
  "rugged_commitish L repo spec =
     (case git_revparse_single L repo spec of
        Inl error \<Rightarrow> Some (Inl error)
      | Inr object \<Rightarrow>
          (case peel_tags repo object of
             None \<Rightarrow> None
           | Some (Inl error) \<Rightarrow> Some (Inl error)
           | Some (Inr object') \<Rightarrow>
               (case snd object' of
                  CommitObj c \<Rightarrow> Some (Inr (fst object', c))
                | _ \<Rightarrow> Some (Inl type_mismatch))))"

definition rugged_commitish_or_treeish ::
  "git_library \<Rightarrow> git_repository \<Rightarrow> rb_value \<Rightarrow> bool \<Rightarrow> bool \<Rightarrow> (rb_exception + rb_value) option" where
  "rugged_commitish_or_treeish L repo rb_spec is_commit as_obj =
     (case rb_spec of
        RString str \<Rightarrow>
          (case StringValueCStr str of
             Inl e \<Rightarrow> Some (Inl e)
           | Inr spec \<Rightarrow>
          (case rugged_commitish L repo spec of
             None \<Rightarrow> None
           | Some r \<Rightarrow>
               Some (case rugged_exception_check r of
                       Inl e \<Rightarrow> Inl e
                     | Inr commit \<Rightarrow>
                         (case (if \<not> is_commit
                                then (case rugged_exception_check (git_commit_tree repo commit) of
                                        Inl e \<Rightarrow> Inl e
                                      | Inr tree \<Rightarrow> Inr (tree_object tree))
                                else Inr (commit_object commit)) of
                            Inl e \<Rightarrow> Inl e
                          | Inr object \<Rightarrow>
                              Inr (if \<not> as_obj then rugged_create_oid (fst object)
                                   else rugged_object_new object)))))
      | _ \<Rightarrow> Some (Inl (TypeError ''wrong argument type (expected String)'')))"

definition rb_git_object_commitish ::
  "git_library \<Rightarrow> git_repository \<Rightarrow> rb_value \<Rightarrow> (rb_exception + rb_value) option" where
  "rb_git_object_commitish L repo rb_spec = rugged_commitish_or_treeish L repo rb_spec True True"

section \<open>\<^verbatim>\<open>rugged_commit.c\<close>: commits of one repository that another lacks\<close>

text \<open>
  The first \<^verbatim>\<open>while\<close> loop of \<^verbatim>\<open>rb_git_commit_diff_between_repos\<close>: from \<open>oid1\<close>,
  follow parent 0 in \<open>repo1\<close> until an id is in the object database of the second
  repository (the result is that id) or a commit has no parent (the result is NULL). The
  loop has no bound of its own, so not returning is the value \<open>None\<close>.
\<close>

partial_function (option) find_known_ancestor ::
  "git_repository \<Rightarrow> git_repository \<Rightarrow> git_oid \<Rightarrow> (rb_exception + git_oid option) option" where
  "find_known_ancestor repo1 odb2 oid1 =
     (if git_odb_exists odb2 oid1 then Some (Inr (Some oid1))
      else
        (case git_commit_lookup repo1 oid1 of
           Inl error \<Rightarrow> Some (Inl (RuggedError error))
         | Inr commit1 \<Rightarrow>
             (case git_commit_parent_id commit1 0 of
                Some parent_oid \<Rightarrow> find_known_ancestor repo1 odb2 parent_oid
              | None \<Rightarrow> Some (Inr None))))"

declare find_known_ancestor.simps [code]

text \<open>
  The merge base that becomes the boundary: \<^verbatim>\<open>git_merge_bases_many\<close> on the two ids,
  \<^verbatim>\<open>GIT_ENOTFOUND\<close> meaning no boundary, and otherwise the first id it returns (on
  success libgit2 returns at least one id: the first, and the others).
\<close>

definition hide_boundary ::
  "git_library \<Rightarrow> git_repository \<Rightarrow> git_oid option \<Rightarrow> git_oid \<Rightarrow> rb_exception + git_oid option" where
  "hide_boundary L repo2 oid1 oid2 =
     (case oid1 of
        None \<Rightarrow> Inr None
      | Some known \<Rightarrow>
          (case git_merge_bases_many L repo2 [known, oid2] of
             Inl error \<Rightarrow>
               if code error = GIT_ENOTFOUND then Inr None else Inl (RuggedError error)
           | Inr bases \<Rightarrow> Inr (Some (fst bases))))"

text \<open>The walk that ends the function: time-sorted, from \<open>oid2\<close>, hiding the boundary.\<close>

definition walk_from_hiding ::
  "git_library \<Rightarrow> git_repository \<Rightarrow> git_oid \<Rightarrow> git_oid option \<Rightarrow> rb_exception + rb_value" where
  "walk_from_hiding L repo2 oid2 oid1 =
     (let walk = git_revwalk_new\<lparr>sorting := GIT_SORT_TIME\<rparr> in
      case (case git_revwalk_push_check L repo2 (TipOid oid2) False of
              Some error \<Rightarrow> Inl error
            | None \<Rightarrow>
                (let walk1 = walk\<lparr>pushed := pushed walk @ [TipOid oid2]\<rparr> in
                 case oid1 of
                   None \<Rightarrow> Inr walk1
                 | Some boundary \<Rightarrow>
                     (case git_revwalk_push_check L repo2 (TipOid boundary) True of
                        Some error \<Rightarrow> Inl error
                      | None \<Rightarrow> Inr (walk1\<lparr>hidden := hidden walk1 @ [TipOid boundary]\<rparr>)))) of
        Inl error \<Rightarrow> Inl (RuggedError error)
      | Inr walk2 \<Rightarrow>
          (case git_revwalk_run L repo2 walk2 of
             (oids, None) \<Rightarrow> Inr (RArray (map rugged_create_oid oids))
           | (oids, Some error) \<Rightarrow> Inl (RuggedError error)))"

definition rb_git_commit_diff_between_repos ::
  "git_library \<Rightarrow> git_repository \<Rightarrow> rb_value \<Rightarrow> git_repository \<Rightarrow> rb_value \<Rightarrow>
     (rb_exception + rb_value) option" where
  "rb_git_commit_diff_between_repos L repo1 rb_commit1 repo2 rb_commit2 =
     (case (rb_commit1, rb_commit2) of
        (RString commit1, RString commit2) \<Rightarrow>
          if length commit1 < 40 \<or> length commit2 < 40
          then Some (Inl (ArgError ''The given OID is too short''))
          else if length commit1 > 40 \<or> length commit2 > 40
          then Some (Inl (ArgError ''The given OID is too long''))
          else
            (case git_oid_fromstr L commit1 of
               Inl error \<Rightarrow> Some (Inl (RuggedError error))
             | Inr oid1 \<Rightarrow>
            (case git_oid_fromstr L commit2 of
               Inl error \<Rightarrow> Some (Inl (RuggedError error))
             | Inr oid2 \<Rightarrow>
            (case find_known_ancestor repo1 repo2 oid1 of
               None \<Rightarrow> None
             | Some (Inl e) \<Rightarrow> Some (Inl e)
             | Some (Inr known) \<Rightarrow>
                 Some (case hide_boundary L repo2 known oid2 of
                         Inl e \<Rightarrow> Inl e
                       | Inr boundary \<Rightarrow> walk_from_hiding L repo2 oid2 boundary))))
      | _ \<Rightarrow> Some (Inl (TypeError ''wrong argument type (expected String)'')))"

section \<open>\<^verbatim>\<open>rugged_commit.c\<close>: statistics of many commits, on threads\<close>

text \<open>
  \<^verbatim>\<open>Commit.stats(repo, commits)\<close> prepares one task per commit, starts
  \<open>min(arrlen, git_online_cpus())\<close> threads on \<^verbatim>\<open>commit_stat_task_proc\<close>, joins them
  and returns the statistics of the tasks in the order of the array.
\<close>

record commit_stat_task =
  task_tree :: git_tree
  task_parent_tree :: "git_tree option"
  task_stats :: commit_stats

text \<open>
  One round of the first loop of \<^verbatim>\<open>rb_git_commit_stats\<close>: the tree of the first parent
  (NULL on \<^verbatim>\<open>GIT_ENOTFOUND\<close>), then the tree of the commit, then the statistics with
  zero counts. The entries of the array are taken to be commits (the code does not check).
\<close>

definition prepare_task :: "git_repository \<Rightarrow> git_commit \<Rightarrow> git_failure + commit_stat_task" where
  "prepare_task repo commit =
     (case first_parent_tree repo commit of
        Inl error \<Rightarrow> Inl error
      | Inr parent_tree \<Rightarrow>
          (case git_commit_tree repo commit of
             Inl error \<Rightarrow> Inl error
           | Inr tree \<Rightarrow>
               Inr \<lparr>task_tree = tree, task_parent_tree = parent_tree,
                    task_stats = new_commit_stats commit\<rparr>))"

fun prepare_tasks :: "git_repository \<Rightarrow> git_commit list \<Rightarrow> git_failure + commit_stat_task list" where
  "prepare_tasks repo [] = Inr []"
| "prepare_tasks repo (commit # commits) =
     (case prepare_task repo commit of
        Inl error \<Rightarrow> Inl error
      | Inr task \<Rightarrow>
          (case prepare_tasks repo commits of
             Inl error \<Rightarrow> Inl error
           | Inr tasks \<Rightarrow> Inr (task # tasks)))"

subsection \<open>The threads\<close>

text \<open>
  Where a thread stands in \<^verbatim>\<open>commit_stat_task_proc\<close>: at the top of its loop, about to
  lock the mutex; holding the index of the task it took, about to compute its statistics;
  or returned, with the failure it returns or none.
\<close>

datatype worker = AtLock | Claimed nat | Returned "git_failure option"

text \<open>
  What all threads share: the counter \<^verbatim>\<open>int top\<close>, the number of tasks
  \<^verbatim>\<open>size_t tasks_nr\<close> and the tasks, and here also the places where the threads stand.
\<close>

record commit_stat_tasks =
  top :: "32 word"
  tasks_nr :: "64 word"
  tasks :: "commit_stat_task list"
  threads :: "worker list"

text \<open>
  Between locking and unlocking the mutex a thread reads \<^verbatim>\<open>top\<close>, and takes the task at
  that index and increments \<^verbatim>\<open>top\<close>, or finds no task left and returns. No other thread
  is in that section meanwhile: it is one step.

  \<^verbatim>\<open>payload->top >= payload->tasks_nr\<close> compares an \<^verbatim>\<open>int\<close> with a \<^verbatim>\<open>size_t\<close>:
  the \<^verbatim>\<open>int\<close> is sign-extended and the two are compared as unsigned 64-bit numbers.
  \<^verbatim>\<open>payload->top++\<close> past \<open>2\<^sup>3\<^sup>1 - 1\<close> is taken to wrap around to \<open>- 2\<^sup>3\<^sup>1\<close>. The
  index of the task taken is the value of \<^verbatim>\<open>top\<close>, which is not negative where a task is
  taken (\<^verbatim>\<open>tasks_nr\<close> is the length of a Ruby array, below \<open>2\<^sup>6\<^sup>3\<close>).
\<close>

definition take_task :: "commit_stat_tasks \<Rightarrow> nat \<Rightarrow> commit_stat_tasks" where
  "take_task p k =
     (if (scast (top p) :: 64 word) \<ge> tasks_nr p then p\<lparr>threads := (threads p)[k := Returned None]\<rparr>
      else p\<lparr>threads := (threads p)[k := Claimed (unat (scast (top p) :: 64 word))],
             top := top p + 1\<rparr>)"

text \<open>
  Outside the mutex the thread computes the statistics of its task, and writes the two
  counts into the statistics of that task; on a failure it returns the failure.
\<close>

definition compute_task ::
  "git_library \<Rightarrow> git_repository \<Rightarrow> commit_stat_tasks \<Rightarrow> nat \<Rightarrow> nat \<Rightarrow> commit_stat_tasks" where
  "compute_task L repo p k i =
     (let current_task = tasks p ! i in
      case git_commit_stats_of L repo (task_tree current_task) (task_parent_tree current_task) None of
        Inl error \<Rightarrow> p\<lparr>threads := (threads p)[k := Returned (Some error)]\<rparr>
      | Inr (a, d) \<Rightarrow>
          p\<lparr>tasks := (tasks p)[i := current_task\<lparr>task_stats := (task_stats current_task)\<lparr>adds := a, dels := d\<rparr>\<rparr>],
            threads := (threads p)[k := AtLock]\<rparr>)"

definition lock_failure :: git_failure where
  "lock_failure = Failure GIT_ERROR GITERR_OS ''Failed to lock mutex''"

definition unlock_failure :: git_failure where
  "unlock_failure = Failure GIT_ERROR GITERR_OS ''Failed to unlock mutex''"

text \<open>
  What happens next is the scheduler's choice: a thread takes its next step, or its
  \<^verbatim>\<open>pthread_mutex_lock\<close> or \<^verbatim>\<open>pthread_mutex_unlock\<close> fails.
\<close>

datatype event = Run nat | LockFails nat | UnlockFails nat

definition commit_stat_task_proc ::
  "git_library \<Rightarrow> git_repository \<Rightarrow> event \<Rightarrow> commit_stat_tasks \<Rightarrow> commit_stat_tasks" where
  "commit_stat_task_proc L repo ev p =
     (case ev of
        Run k \<Rightarrow>
          if k < length (threads p) then
            (case threads p ! k of
               AtLock \<Rightarrow> take_task p k
             | Claimed i \<Rightarrow> compute_task L repo p k i
             | Returned _ \<Rightarrow> p)
          else p
      | LockFails k \<Rightarrow>
          if k < length (threads p) \<and> threads p ! k = AtLock
          then p\<lparr>threads := (threads p)[k := Returned (Some lock_failure)]\<rparr>
          else p
      | UnlockFails k \<Rightarrow>
          if k < length (threads p) \<and> threads p ! k = AtLock
          then (take_task p k)\<lparr>threads := (threads p)[k := Returned (Some unlock_failure)]\<rparr>
          else p)"

subsection \<open>Starting and joining\<close>

text \<open>The results of the calls into the thread library (0 for success).\<close>

record pthreads =
  mutex_init_result :: int
  create_result :: "nat \<Rightarrow> int"
  join_result :: "nat \<Rightarrow> int"

text \<open>The loop that starts the threads: the first \<^verbatim>\<open>pthread_create\<close> that fails, if any.\<close>

fun create_threads :: "pthreads \<Rightarrow> nat \<Rightarrow> nat \<Rightarrow> int option" where
  "create_threads os i 0 = None"
| "create_threads os i (Suc n) =
     (if create_result os i \<noteq> 0 then Some (create_result os i) else create_threads os (Suc i) n)"

text \<open>
  The loop that joins the threads, in the order they were started. A \<^verbatim>\<open>pthread_join\<close>
  that fails ends the loop at once. One that succeeds waits for its thread: the result is
  \<open>None\<close> when the schedule leaves that thread short of its return. Otherwise the loop ends
  with the failure the thread returned (the threads after it are cancelled), or goes on.
\<close>

fun join_threads :: "pthreads \<Rightarrow> worker list \<Rightarrow> nat \<Rightarrow> rb_exception option option" where
  "join_threads os [] i = Some None"
| "join_threads os (t # ts) i =
     (if join_result os i \<noteq> 0 then Some (Some (SystemCallError (join_result os i)))
      else (case t of
              Returned (Some error) \<Rightarrow> Some (Some (RuggedError error))
            | Returned None \<Rightarrow> join_threads os ts (Suc i)
            | _ \<Rightarrow> None))"

definition nr_threads :: "git_library \<Rightarrow> nat \<Rightarrow> nat" where
  "nr_threads L arrlen = (if arrlen < git_online_cpus L then arrlen else git_online_cpus L)"

text \<open>The shared state once the threads, all started at the top of their loop, have run a schedule.\<close>

definition run_threads ::
  "git_library \<Rightarrow> git_repository \<Rightarrow> commit_stat_task list \<Rightarrow> nat \<Rightarrow> event list \<Rightarrow> commit_stat_tasks" where
  "run_threads L repo ts n schedule =
     fold (commit_stat_task_proc L repo) schedule
       \<lparr>top = 0, tasks_nr = word_of_nat (length ts), tasks = ts, threads = replicate n AtLock\<rparr>"

definition rb_git_commit_stats ::
  "git_library \<Rightarrow> pthreads \<Rightarrow> git_repository \<Rightarrow> git_commit list \<Rightarrow> event list \<Rightarrow>
     (rb_exception + rb_value) option" where
  "rb_git_commit_stats L os repo rb_commits schedule =
     (let arrlen = length rb_commits in
      if mutex_init_result os \<noteq> 0 then Some (Inl (SystemCallError (mutex_init_result os)))
      else
        (case prepare_tasks repo rb_commits of
           Inl error \<Rightarrow> Some (Inl (RuggedError error))
         | Inr ts \<Rightarrow>
             (case create_threads os 0 (nr_threads L arrlen) of
                Some os_errno \<Rightarrow> Some (Inl (SystemCallError os_errno))
              | None \<Rightarrow>
                  (let p = run_threads L repo ts (nr_threads L arrlen) schedule
                   in case join_threads os (threads p) 0 of
                        None \<Rightarrow> None
                      | Some (Some e) \<Rightarrow> Some (Inl e)
                      | Some None \<Rightarrow> Some (Inr (RArray (map (RStats \<circ> task_stats) (tasks p))))))))"

section \<open>An example repository and library\<close>

text \<open>
  Four commits: a root, a child of it, a side branch from the root, and a merge of the child
  and the side branch; a fifth commit that shares no history with them; their trees; three
  annotated tags (of a commit, of a tag, of a tree) and a blob. The library answers as
  libgit2 does on this repository, for the calls the examples make.
\<close>

definition sig_at :: "int \<Rightarrow> git_signature" where
  "sig_at t = \<lparr>sig_name = ''A U Thor'', sig_email = ''author@example.com'', sig_when = t\<rparr>"

definition root_tree :: git_tree where
  "root_tree = (10, [(''README'', [''hello'', ''world''])])"

definition child_tree :: git_tree where
  "child_tree = (11, [(''README'', [''hello'', ''there'', ''world'']), (''a.c'', [''int x;''])])"

definition side_tree :: git_tree where
  "side_tree = (12, [(''README'', [''hello'', ''world'']), (''b.c'', [''int y;'', ''int z;''])])"

definition root_commit :: git_commit where
  "root_commit = (1, \<lparr>tree_id = 10, parent_ids = [], author = sig_at 100, committer = sig_at 100\<rparr>)"

definition child_commit :: git_commit where
  "child_commit = (2, \<lparr>tree_id = 11, parent_ids = [1], author = sig_at 200, committer = sig_at 200\<rparr>)"

definition side_commit :: git_commit where
  "side_commit = (4, \<lparr>tree_id = 12, parent_ids = [1], author = sig_at 250, committer = sig_at 250\<rparr>)"

definition merge_commit :: git_commit where
  "merge_commit = (3, \<lparr>tree_id = 11, parent_ids = [2, 4], author = sig_at 300, committer = sig_at 300\<rparr>)"

definition unrelated_commit :: git_commit where
  "unrelated_commit =
     (6, \<lparr>tree_id = 10, parent_ids = [], author = sig_at 150, committer = sig_at 150\<rparr>)"

definition example_objects :: "(git_oid \<times> odb_object) list" where
  "example_objects =
     [(1, CommitObj (snd root_commit)),
      (2, CommitObj (snd child_commit)),
      (3, CommitObj (snd merge_commit)),
      (4, CommitObj (snd side_commit)),
      (6, CommitObj (snd unrelated_commit)),
      (10, TreeObj (snd root_tree)),
      (11, TreeObj (snd child_tree)),
      (12, TreeObj (snd side_tree)),
      (20, TagObj 2),
      (21, TagObj 20),
      (22, TagObj 10),
      (80, BlobObj ''hello'')]"

definition example_repo :: git_repository where
  "example_repo = map_of example_objects"

definition example_refs :: "(string \<times> git_oid) list" where
  "example_refs = [(''HEAD'', 3), (''v1'', 20), (''v1-signed'', 21), (''tree-tag'', 22)]"

definition no_such_ref :: git_failure where
  "no_such_ref = Failure GIT_ENOTFOUND GITERR_REFERENCE ''Revspec not found''"

definition example_revparse_single :: "git_repository \<Rightarrow> string \<Rightarrow> git_failure + git_object" where
  "example_revparse_single repo spec =
     (case map_of example_refs spec of
        None \<Rightarrow> Inl no_such_ref
      | Some oid \<Rightarrow> git_object_lookup repo oid GIT_OBJ_ANY)"

definition hex_value :: "char \<Rightarrow> nat option" where
  "hex_value c =
     (let n = (of_char c :: nat) in
      if 48 \<le> n \<and> n \<le> 57 then Some (n - 48)
      else if 97 \<le> n \<and> n \<le> 102 then Some (n - 87)
      else if 65 \<le> n \<and> n \<le> 70 then Some (n - 55)
      else None)"

definition invalid_hex :: git_failure where
  "invalid_hex = Failure GIT_ERROR GITERR_INVALID ''Unable to parse OID''"

definition example_oid_fromstrn :: "string \<Rightarrow> 64 word \<Rightarrow> git_failure + git_oid" where
  "example_oid_fromstrn str n =
     (if n = 0 \<or> 40 < n \<or> length str < unat n then Inl invalid_hex
      else
        (case those (map hex_value (take (unat n) str)) of
           None \<Rightarrow> Inl invalid_hex
         | Some ds \<Rightarrow>
             Inr (word_of_nat (foldl (\<lambda>a d. 16 * a + d) 0 ds * 16 ^ (40 - unat n)))))"

definition ambiguous_prefix :: git_failure where
  "ambiguous_prefix = Failure GIT_EAMBIGUOUS GITERR_ODB ''Ambiguous prefix''"

definition example_lookup_prefix ::
  "git_repository \<Rightarrow> git_oid \<Rightarrow> 64 word \<Rightarrow> git_otype \<Rightarrow> git_failure + git_object" where
  "example_lookup_prefix repo oid len ty =
     (if len < 4 then Inl ambiguous_prefix
      else
        (case filter (\<lambda>k. unat k div 16 ^ (40 - unat len) = unat oid div 16 ^ (40 - unat len))
                (map fst example_objects) of
           [] \<Rightarrow> Inl not_in_odb
         | [k] \<Rightarrow> git_object_lookup repo k ty
         | _ \<Rightarrow> Inl ambiguous_prefix))"

text \<open>A diff by whole files: a file that changed loses every old line and gains every new one.\<close>

definition file_lines ::
  "git_diff_line_origin \<Rightarrow> string \<times> string list \<Rightarrow> (git_diff_delta \<times> git_diff_line) list" where
  "file_lines org f =
     map (\<lambda>l. (\<lparr>old_file_path = fst f, new_file_path = fst f\<rparr>, \<lparr>origin = org, content = l\<rparr>)) (snd f)"

definition example_diff_tree_to_tree ::
  "git_repository \<Rightarrow> git_tree option \<Rightarrow> git_tree option \<Rightarrow> git_failure + git_diff" where
  "example_diff_tree_to_tree repo old new =
     (let old_files = (case old of None \<Rightarrow> [] | Some t \<Rightarrow> snd t);
          new_files = (case new of None \<Rightarrow> [] | Some t \<Rightarrow> snd t)
      in Inr \<lparr>diff_lines =
                concat (map (\<lambda>f. case map_of new_files (fst f) of
                                    None \<Rightarrow> file_lines GIT_DIFF_LINE_DELETION f
                                  | Some ls \<Rightarrow>
                                      if ls = snd f then []
                                      else file_lines GIT_DIFF_LINE_DELETION f @
                                           file_lines GIT_DIFF_LINE_ADDITION (fst f, ls))
                            old_files) @
                concat (map (\<lambda>f. case map_of old_files (fst f) of
                                    None \<Rightarrow> file_lines GIT_DIFF_LINE_ADDITION f
                                  | Some _ \<Rightarrow> [])
                            new_files),
              foreach_failure = None\<rparr>)"

definition no_merge_base :: git_failure where
  "no_merge_base = Failure GIT_ENOTFOUND GITERR_MERGE ''No merge base found''"

text \<open>The commits reachable from each commit of the example, latest first.\<close>

definition example_ancestors :: "git_oid \<Rightarrow> git_oid list" where
  "example_ancestors oid =
     (if oid = 3 then [3, 4, 2, 1]
      else if oid = 4 then [4, 1]
      else if oid = 2 then [2, 1]
      else if oid = 1 then [1]
      else if oid = 6 then [6]
      else [])"

definition example_merge_bases_many ::
  "git_repository \<Rightarrow> git_oid list \<Rightarrow> git_failure + (git_oid \<times> git_oid list)" where
  "example_merge_bases_many repo oids =
     (case oids of
        [a, b] \<Rightarrow>
          (case filter (\<lambda>x. x \<in> set (example_ancestors b)) (example_ancestors a) of
             [] \<Rightarrow> Inl no_merge_base
           | x # _ \<Rightarrow> Inr (x, []))
      | _ \<Rightarrow> Inl no_merge_base)"

definition example_revwalk_push_check :: "git_repository \<Rightarrow> tip \<Rightarrow> bool \<Rightarrow> git_failure option" where
  "example_revwalk_push_check repo t hide =
     (case t of
        TipOid oid \<Rightarrow> (case git_commit_lookup repo oid of Inl f \<Rightarrow> Some f | Inr _ \<Rightarrow> None)
      | TipRef r \<Rightarrow> (if r = ''HEAD'' then None else Some no_such_ref))"

definition hidden_by :: "tip list \<Rightarrow> git_oid \<Rightarrow> bool" where
  "hidden_by tips oid =
     list_ex (\<lambda>t. case t of TipOid h \<Rightarrow> oid \<in> set (example_ancestors h) | TipRef _ \<Rightarrow> False) tips"

definition example_revwalk_run ::
  "git_repository \<Rightarrow> git_revwalk \<Rightarrow> git_oid list \<times> git_failure option" where
  "example_revwalk_run repo walk =
     (case pushed walk of
        [TipOid t] \<Rightarrow> (filter (\<lambda>oid. \<not> hidden_by (hidden walk) oid) (example_ancestors t), None)
      | _ \<Rightarrow> ([], None))"

definition example_library :: git_library where
  "example_library =
     \<lparr>git_revparse_single = example_revparse_single,
      git_oid_fromstr = (\<lambda>str. example_oid_fromstrn str 40),
      git_oid_fromstrn = example_oid_fromstrn,
      git_object_lookup_prefix = example_lookup_prefix,
      git_diff_tree_to_tree = example_diff_tree_to_tree,
      git_merge_bases_many = example_merge_bases_many,
      git_revwalk_push_check = example_revwalk_push_check,
      git_revwalk_run = example_revwalk_run,
      git_online_cpus = 4\<rparr>"

definition hex_of_merge :: string where
  "hex_of_merge = ''0000000000000000000000000000000000000003''"

section \<open>Parents\<close>

lemma parents_loop_prefix:
  "parents_loop repo commit n k acc = Inr r \<Longrightarrow>
     length r = length acc + k \<and> take (length acc) r = acc"
proof (induction k arbitrary: n acc)
  case 0
  then show ?case by simp
next
  case (Suc k)
  from Suc.prems obtain p where
    rest: "parents_loop repo commit (Suc n) k (acc @ [rugged_object_new (commit_object p)]) = Inr r"
    by (auto simp: rugged_exception_check_def split: sum.splits)
  from Suc.IH [OF rest] have len: "length r = length acc + Suc k"
    and tk: "take (Suc (length acc)) r = acc @ [rugged_object_new (commit_object p)]"
    by simp_all
  from tk have "take (length acc) (take (Suc (length acc)) r) =
      take (length acc) (acc @ [rugged_object_new (commit_object p)])"
    by simp
  then have "take (length acc) r = acc" by simp
  with len show ?case by simp
qed

lemma parents_loop_first:
  assumes "parents_loop repo commit n (Suc k) acc = Inr r"
  shows "\<exists>p. git_commit_parent repo commit n = Inr p \<and>
             r ! length acc = rugged_object_new (commit_object p)"
proof -
  from assms obtain p where
    p: "git_commit_parent repo commit n = Inr p" and
    rest: "parents_loop repo commit (Suc n) k (acc @ [rugged_object_new (commit_object p)]) = Inr r"
    by (auto simp: rugged_exception_check_def split: sum.splits)
  from parents_loop_prefix [OF rest]
  have "take (Suc (length acc)) r = acc @ [rugged_object_new (commit_object p)]" by simp
  then have "take (Suc (length acc)) r ! length acc =
      (acc @ [rugged_object_new (commit_object p)]) ! length acc"
    by simp
  then have "r ! length acc = rugged_object_new (commit_object p)" by simp
  with p show ?thesis by blast
qed

text \<open>
  C1 (as the code has it). \<^verbatim>\<open>commit.parent\<close> of a commit with no parent returns
  \<^verbatim>\<open>nil\<close>; it does not fail. Of a commit with at least one parent, whenever
  \<^verbatim>\<open>commit.parents\<close> returns an array, the array has one entry per parent and
  \<^verbatim>\<open>commit.parent\<close> returns its entry 0.
\<close>

theorem parent_is_first_of_parents_or_nil:
  "(git_commit_parentcount commit = 0 \<longrightarrow> rb_git_commit_parent_GET repo commit = Inr Qnil) \<and>
   (0 < git_commit_parentcount commit \<longrightarrow>
    rb_git_commit_parents_GET repo commit = Inr (RArray ps) \<longrightarrow>
      length ps = git_commit_parentcount commit \<and>
      rb_git_commit_parent_GET repo commit = Inr (ps ! 0))"
proof (intro conjI impI)
  assume "git_commit_parentcount commit = 0"
  then show "rb_git_commit_parent_GET repo commit = Inr Qnil"
    by (simp add: rb_git_commit_parent_GET_def)
next
  assume pos: "0 < git_commit_parentcount commit"
    and ps: "rb_git_commit_parents_GET repo commit = Inr (RArray ps)"
  from ps have loop: "parents_loop repo commit 0 (git_commit_parentcount commit) [] = Inr ps"
    by (auto simp: rb_git_commit_parents_GET_def split: sum.splits)
  from parents_loop_prefix [OF loop] show "length ps = git_commit_parentcount commit" by simp
  from pos obtain k where k: "git_commit_parentcount commit = Suc k"
    by (cases "git_commit_parentcount commit") auto
  from loop k parents_loop_first [of repo commit 0 k "[]" ps]
  obtain p where "git_commit_parent repo commit 0 = Inr p"
    "ps ! 0 = rugged_object_new (commit_object p)"
    by auto
  with pos show "rb_git_commit_parent_GET repo commit = Inr (ps ! 0)"
    by (simp add: rb_git_commit_parent_GET_def rugged_exception_check_def)
qed

theorem parent_is_first_of_parents_or_nil_witness:
  "rb_git_commit_parent_GET [1 \<mapsto> CommitObj (snd root_commit)] root_commit = Inr Qnil \<and>
   0 < git_commit_parentcount child_commit \<and>
   rb_git_commit_parents_GET [1 \<mapsto> CommitObj (snd root_commit)] child_commit =
     Inr (RArray [RObject (commit_object root_commit)]) \<and>
   rb_git_commit_parent_GET [1 \<mapsto> CommitObj (snd root_commit)] child_commit =
     Inr (RObject (commit_object root_commit))"
proof -
  let ?repo = "[1 \<mapsto> CommitObj (snd root_commit)] :: git_repository"
  have a: "git_commit_parentcount root_commit = 0"
    by (simp add: git_commit_parentcount_def root_commit_def)
  have b: "0 < git_commit_parentcount child_commit"
    by (simp add: git_commit_parentcount_def child_commit_def)
  have c: "rb_git_commit_parents_GET ?repo child_commit =
      Inr (RArray [RObject (commit_object root_commit)])"
    by (simp add: rb_git_commit_parents_GET_def git_commit_parentcount_def child_commit_def
        rugged_exception_check_def git_commit_parent_def git_commit_parent_id_def
        git_commit_lookup_def rugged_object_new_def commit_object_def root_commit_def)
  from parent_is_first_of_parents_or_nil [of root_commit ?repo] a
    parent_is_first_of_parents_or_nil [of child_commit ?repo, THEN conjunct2, rule_format, OF b c] b c
  show ?thesis by simp
qed

text \<open>
  C1 as the specification states it fails: on a commit with no parent the call returns
  \<^verbatim>\<open>nil\<close> where the specification wants a NotFound failure.
\<close>

theorem parent_of_root_is_nil_not_failure:
  "rb_git_commit_parent_GET [1 \<mapsto> CommitObj (snd root_commit)] root_commit = Inr Qnil"
  by (simp add: rb_git_commit_parent_GET_def git_commit_parentcount_def root_commit_def)

section \<open>Line statistics\<close>

text \<open>
  What the specification counts: the lines of a given origin, in the deltas that pass the
  path filter (every delta when there is no filter).
\<close>

definition path_matches :: "string option \<Rightarrow> git_diff_delta \<Rightarrow> bool" where
  "path_matches path delta =
     (case path of None \<Rightarrow> True | Some p \<Rightarrow> old_file_path delta = p \<and> new_file_path delta = p)"

definition spec_counted_lines ::
  "string option \<Rightarrow> git_diff_line_origin \<Rightarrow> (git_diff_delta \<times> git_diff_line) list \<Rightarrow> nat" where
  "spec_counted_lines path org ls =
     length (filter (\<lambda>(delta, line). path_matches path delta \<and> origin line = org) ls)"

definition total_lines :: "tree_data \<Rightarrow> nat" where
  "total_lines t = sum_list (map (\<lambda>(path, lines). length lines) t)"

lemma stats_cb_fold:
  "fold (\<lambda>(delta, line). git_commit_stats_cb delta line) ls args =
     args\<lparr>args_adds := args_adds args +
                word_of_nat (spec_counted_lines (path_only args) GIT_DIFF_LINE_ADDITION ls),
          args_dels := args_dels args +
                word_of_nat (spec_counted_lines (path_only args) GIT_DIFF_LINE_DELETION ls)\<rparr>"
proof (induction ls arbitrary: args)
  case Nil
  show ?case by (simp add: spec_counted_lines_def)
next
  case (Cons x ls)
  obtain delta line where x: "x = (delta, line)" by (cases x)
  have p: "path_only (git_commit_stats_cb delta line args) = path_only args"
    by (simp add: git_commit_stats_cb_def split: git_diff_line_origin.splits)
  show ?case
    unfolding x
    apply (simp add: Cons.IH p)
    apply (cases "origin line"; cases "path_only args")
    apply (auto simp add: git_commit_stats_cb_def spec_counted_lines_def path_matches_def)
    done
qed

lemma git_commit_stats_of_counts:
  assumes "git_diff_tree_to_tree L repo parent_tree (Some tree) = Inr diff"
    and "foreach_failure diff = None"
  shows "git_commit_stats_of L repo tree parent_tree path =
     Inr (scast (word_of_nat (spec_counted_lines path GIT_DIFF_LINE_ADDITION (diff_lines diff)) :: 32 word),
          scast (word_of_nat (spec_counted_lines path GIT_DIFF_LINE_DELETION (diff_lines diff)) :: 32 word))"
  using assms by (simp add: git_commit_stats_of_def stats_cb_fold)

text \<open>A count below \<open>2\<^sup>3\<^sup>1\<close> survives the \<^verbatim>\<open>int\<close> counter and both conversions.\<close>

lemma sint_count:
  assumes "n < 2 ^ 31"
  shows "sint (word_of_nat n :: 32 word) = int n"
proof -
  have "sint (word_of_nat n :: 32 word) = signed_take_bit 31 (int n)"
    by (simp add: signed_of_nat)
  also have "\<dots> = int n"
    using assms by (intro signed_take_bit_int_eq_self) auto
  finally show ?thesis .
qed

lemma scast_count:
  assumes "n < 2 ^ 31"
  shows "(scast (word_of_nat n :: 32 word) :: 64 word) = word_of_nat n"
  by (simp add: scast_eq sint_count [OF assms])

lemma int_count_as_size_t:
  assumes "n < 2 ^ 31"
  shows "unat (scast (word_of_nat n :: 32 word) :: 64 word) = n"
proof -
  have "n < 2 ^ 64" using assms by (rule less_trans) simp
  then show ?thesis
    by (simp add: scast_count [OF assms] unat_of_nat)
qed

lemma size_t_count_as_int:
  assumes "n < 2 ^ 31"
  shows "sint (ucast (scast (word_of_nat n :: 32 word) :: 64 word) :: 32 word) = int n"
proof -
  have "(ucast (word_of_nat n :: 64 word) :: 32 word) = word_of_nat n"
    by transfer (simp add: take_bit_of_nat [symmetric] min_def del: take_bit_of_nat)
  then show ?thesis
    by (simp add: scast_count [OF assms] sint_count [OF assms])
qed

lemma first_parent_tree_root:
  "git_commit_parentcount commit = 0 \<Longrightarrow> first_parent_tree repo commit = Inr None"
  by (simp add: first_parent_tree_def git_commit_parent_def git_commit_parent_id_def
      git_commit_parentcount_def no_such_parent_def)

subsection \<open>The path filter\<close>

text \<open>
  C7. With a path filter \<open>p\<close>, the callback leaves the counters alone on every line of a
  delta whose old path or new path differs from \<open>p\<close>; and when the diff succeeds, the
  additions and deletions returned are the numbers (counted in a C \<^verbatim>\<open>int\<close>) of addition
  and deletion lines in the deltas whose old path and new path both equal \<open>p\<close>.
\<close>

theorem path_filter_counts_exact_matches_only:
  "(old_file_path delta \<noteq> p \<or> new_file_path delta \<noteq> p \<longrightarrow>
      git_commit_stats_cb delta line (args\<lparr>path_only := Some p\<rparr>) = args\<lparr>path_only := Some p\<rparr>) \<and>
   (git_diff_tree_to_tree L repo parent_tree (Some tree) = Inr diff \<longrightarrow>
    foreach_failure diff = None \<longrightarrow>
      git_commit_stats_of L repo tree parent_tree (Some p) =
        Inr (scast (word_of_nat (length (filter
                 (\<lambda>(delta, line). old_file_path delta = p \<and> new_file_path delta = p \<and>
                                   origin line = GIT_DIFF_LINE_ADDITION)
                 (diff_lines diff))) :: 32 word),
             scast (word_of_nat (length (filter
                 (\<lambda>(delta, line). old_file_path delta = p \<and> new_file_path delta = p \<and>
                                   origin line = GIT_DIFF_LINE_DELETION)
                 (diff_lines diff))) :: 32 word)))"
proof (intro conjI impI)
  assume "old_file_path delta \<noteq> p \<or> new_file_path delta \<noteq> p"
  then show "git_commit_stats_cb delta line (args\<lparr>path_only := Some p\<rparr>) = args\<lparr>path_only := Some p\<rparr>"
    by (auto simp: git_commit_stats_cb_def)
next
  assume d: "git_diff_tree_to_tree L repo parent_tree (Some tree) = Inr diff"
    and f: "foreach_failure diff = None"
  have m: "(\<lambda>(delta, line). path_matches (Some p) delta \<and> origin line = org) =
           (\<lambda>(delta, line). old_file_path delta = p \<and> new_file_path delta = p \<and> origin line = org)"
    for org
    by (auto simp: path_matches_def fun_eq_iff)
  from git_commit_stats_of_counts [OF d f, of "Some p"]
  show "git_commit_stats_of L repo tree parent_tree (Some p) =
        Inr (scast (word_of_nat (length (filter
                 (\<lambda>(delta, line). old_file_path delta = p \<and> new_file_path delta = p \<and>
                                   origin line = GIT_DIFF_LINE_ADDITION)
                 (diff_lines diff))) :: 32 word),
             scast (word_of_nat (length (filter
                 (\<lambda>(delta, line). old_file_path delta = p \<and> new_file_path delta = p \<and>
                                   origin line = GIT_DIFF_LINE_DELETION)
                 (diff_lines diff))) :: 32 word))"
    by (simp add: spec_counted_lines_def m)
qed

text \<open>
  A diff with a rename of \<^verbatim>\<open>a.c\<close> to \<^verbatim>\<open>b.c\<close>, a rename of \<^verbatim>\<open>c.c\<close> to \<^verbatim>\<open>a.c\<close> and
  a change inside \<^verbatim>\<open>a.c\<close>: under the filter \<^verbatim>\<open>a.c\<close> only the last is counted.
\<close>

definition renaming_diff :: git_diff where
  "renaming_diff =
     \<lparr>diff_lines =
        [(\<lparr>old_file_path = ''a.c'', new_file_path = ''b.c''\<rparr>,
          \<lparr>origin = GIT_DIFF_LINE_ADDITION, content = ''int moved;''\<rparr>),
         (\<lparr>old_file_path = ''c.c'', new_file_path = ''a.c''\<rparr>,
          \<lparr>origin = GIT_DIFF_LINE_DELETION, content = ''int gone;''\<rparr>),
         (\<lparr>old_file_path = ''a.c'', new_file_path = ''a.c''\<rparr>,
          \<lparr>origin = GIT_DIFF_LINE_CONTEXT, content = ''int x;''\<rparr>),
         (\<lparr>old_file_path = ''a.c'', new_file_path = ''a.c''\<rparr>,
          \<lparr>origin = GIT_DIFF_LINE_ADDITION, content = ''int y;''\<rparr>),
         (\<lparr>old_file_path = ''a.c'', new_file_path = ''a.c''\<rparr>,
          \<lparr>origin = GIT_DIFF_LINE_ADDITION, content = ''int z;''\<rparr>),
         (\<lparr>old_file_path = ''a.c'', new_file_path = ''a.c''\<rparr>,
          \<lparr>origin = GIT_DIFF_LINE_DELETION, content = ''int w;''\<rparr>)],
      foreach_failure = None\<rparr>"

theorem path_filter_counts_exact_matches_only_witness:
  "git_commit_stats_cb \<lparr>old_file_path = ''a.c'', new_file_path = ''b.c''\<rparr>
       \<lparr>origin = GIT_DIFF_LINE_ADDITION, content = ''int moved;''\<rparr>
       \<lparr>args_adds = 0, args_dels = 0, path_only = Some ''a.c''\<rparr> =
     \<lparr>args_adds = 0, args_dels = 0, path_only = Some ''a.c''\<rparr> \<and>
   git_commit_stats_of (example_library\<lparr>git_diff_tree_to_tree := \<lambda>repo old new. Inr renaming_diff\<rparr>)
       example_repo child_tree (Some root_tree) (Some ''a.c'') = Inr (2, 1)"
proof -
  let ?L = "example_library\<lparr>git_diff_tree_to_tree := \<lambda>repo old new. Inr renaming_diff\<rparr>"
  let ?delta = "\<lparr>old_file_path = ''a.c'', new_file_path = ''b.c''\<rparr>"
  let ?args = "\<lparr>args_adds = 0, args_dels = 0, path_only = Some ''a.c''\<rparr>"
  note t = path_filter_counts_exact_matches_only [of ?delta "''a.c''" _ ?args ?L example_repo
      "Some root_tree" child_tree renaming_diff]
  have h1: "old_file_path ?delta \<noteq> ''a.c'' \<or> new_file_path ?delta \<noteq> ''a.c''" by simp
  have h2: "git_diff_tree_to_tree ?L example_repo (Some root_tree) (Some child_tree) = Inr renaming_diff"
    by simp
  have h3: "foreach_failure renaming_diff = None" by (simp add: renaming_diff_def)
  from t [THEN conjunct1, rule_format, OF h1] t [THEN conjunct2, rule_format, OF h2 h3]
  show ?thesis by (simp add: renaming_diff_def)
qed

subsection \<open>Root commits\<close>

text \<open>
  C5 (as the code has it). For a commit with no parents, \<^verbatim>\<open>rugged_commit_stats_of\<close>
  takes the missing parent as a NULL tree, not as an error, and diffs NULL against the tree
  of the commit. Where the diff engine reports, against NULL, no deletion and one addition
  for each line of each file of the tree, and the tree holds fewer than \<open>2\<^sup>3\<^sup>1\<close> lines, the
  statistics (without a path filter) have no deletions and as many additions as the files
  of the tree have lines.
\<close>

theorem root_commit_stats_are_all_additions:
  assumes root: "git_commit_parentcount commit = 0"
    and tree: "git_commit_tree repo commit = Inr tree"
    and diff: "git_diff_tree_to_tree L repo None (Some tree) = Inr diff"
    and ok: "foreach_failure diff = None"
    and nodel: "\<forall>x \<in> set (diff_lines diff). origin (snd x) \<noteq> GIT_DIFF_LINE_DELETION"
    and alladd: "length (filter (\<lambda>x. origin (snd x) = GIT_DIFF_LINE_ADDITION) (diff_lines diff)) =
                   total_lines (snd tree)"
    and small: "total_lines (snd tree) < 2 ^ 31"
  shows "first_parent_tree repo commit = Inr None \<and>
         (\<exists>stats. rugged_commit_stats_of L repo commit None = Inr stats \<and>
            dels stats = 0 \<and> unat (adds stats) = total_lines (snd tree) \<and>
            rb_git_commit_stats_dels_GET stats = Fixnum 0 \<and>
            rb_git_commit_stats_adds_GET stats = Fixnum (int (total_lines (snd tree))))"
proof -
  have fp: "first_parent_tree repo commit = Inr None"
    by (rule first_parent_tree_root [OF root])
  have a: "spec_counted_lines None GIT_DIFF_LINE_ADDITION (diff_lines diff) = total_lines (snd tree)"
    using alladd by (simp add: spec_counted_lines_def path_matches_def case_prod_unfold)
  have "filter (\<lambda>(delta, line). origin line = GIT_DIFF_LINE_DELETION) (diff_lines diff) = []"
    using nodel by (auto simp: filter_empty_conv)
  then have d: "spec_counted_lines None GIT_DIFF_LINE_DELETION (diff_lines diff) = 0"
    by (simp add: spec_counted_lines_def path_matches_def)
  let ?stats = "(new_commit_stats commit)
      \<lparr>adds := scast (word_of_nat (total_lines (snd tree)) :: 32 word), dels := 0\<rparr>"
  have r: "rugged_commit_stats_of L repo commit None = Inr ?stats"
    by (simp add: rugged_commit_stats_of_def tree fp rugged_exception_check_def
        git_commit_stats_of_counts [OF diff ok] a d)
  have "unat (adds ?stats) = total_lines (snd tree)"
    by (simp add: int_count_as_size_t [OF small])
  moreover have "rb_git_commit_stats_adds_GET ?stats = Fixnum (int (total_lines (snd tree)))"
    by (simp add: rb_git_commit_stats_adds_GET_def size_t_count_as_int [OF small])
  moreover have "rb_git_commit_stats_dels_GET ?stats = Fixnum 0"
    by (simp add: rb_git_commit_stats_dels_GET_def)
  ultimately show ?thesis using fp r by simp
qed

theorem root_commit_stats_are_all_additions_witness:
  "git_commit_parentcount root_commit = 0 \<and>
   total_lines (snd root_tree) = 2 \<and>
   first_parent_tree example_repo root_commit = Inr None \<and>
   (\<exists>stats. rugged_commit_stats_of example_library example_repo root_commit None = Inr stats \<and>
      dels stats = 0 \<and> unat (adds stats) = 2 \<and>
      rb_git_commit_stats_dels_GET stats = Fixnum 0 \<and>
      rb_git_commit_stats_adds_GET stats = Fixnum 2)"
proof -
  let ?diff = "\<lparr>diff_lines = file_lines GIT_DIFF_LINE_ADDITION (''README'', [''hello'', ''world'']),
               foreach_failure = None\<rparr>"
  have root: "git_commit_parentcount root_commit = 0"
    by (simp add: git_commit_parentcount_def root_commit_def)
  have tree: "git_commit_tree example_repo root_commit = Inr root_tree"
    by (simp add: git_commit_tree_def git_tree_lookup_def example_repo_def example_objects_def
        root_commit_def root_tree_def)
  have diff: "git_diff_tree_to_tree example_library example_repo None (Some root_tree) = Inr ?diff"
    by (simp add: example_library_def example_diff_tree_to_tree_def root_tree_def)
  have ok: "foreach_failure ?diff = None" by simp
  have nodel: "\<forall>x \<in> set (diff_lines ?diff). origin (snd x) \<noteq> GIT_DIFF_LINE_DELETION"
    by (simp add: file_lines_def)
  have n: "total_lines (snd root_tree) = 2"
    by (simp add: total_lines_def root_tree_def)
  have alladd: "length (filter (\<lambda>x. origin (snd x) = GIT_DIFF_LINE_ADDITION) (diff_lines ?diff)) =
      total_lines (snd root_tree)"
    by (simp add: file_lines_def n)
  have small: "total_lines (snd root_tree) < 2 ^ 31" by (simp add: n)
  from root_commit_stats_are_all_additions [OF root tree diff ok nodel alladd small] root n
  show ?thesis by simp
qed

text \<open>A root commit whose one file has \<open>2\<^sup>3\<^sup>1\<close> lines.\<close>

definition big_file :: "string \<times> string list" where
  "big_file = (''big.txt'', replicate (2 ^ 31) ''x'')"

definition big_tree :: git_tree where
  "big_tree = (101, [big_file])"

definition big_root :: git_commit where
  "big_root = (100, \<lparr>tree_id = 101, parent_ids = [], author = sig_at 100, committer = sig_at 100\<rparr>)"

definition big_repo :: git_repository where
  "big_repo = [100 \<mapsto> CommitObj (snd big_root), 101 \<mapsto> TreeObj (snd big_tree)]"

definition stats_of_big_root :: commit_stats where
  "stats_of_big_root =
     \<lparr>adds = 18446744071562067968, dels = 0, stats_committer = sig_at 100,
      stats_author = sig_at 100, stats_oid = 100\<rparr>"

lemma counted_file_lines:
  "spec_counted_lines None org (file_lines org' f) = (if org = org' then length (snd f) else 0)"
  by (simp add: spec_counted_lines_def file_lines_def path_matches_def filter_map comp_def)

text \<open>
  C5 as the specification states it fails for a root commit whose tree holds \<open>2\<^sup>3\<^sup>1\<close> lines:
  the \<^verbatim>\<open>int\<close> counter of the callback wraps around to \<open>- 2\<^sup>3\<^sup>1\<close>, the statistics hold
  \<open>2\<^sup>6\<^sup>4 - 2\<^sup>3\<^sup>1\<close> additions, and \<^verbatim>\<open>adds\<close> answers \<open>- 2\<^sup>3\<^sup>1\<close>.
\<close>

theorem root_commit_of_many_lines_wraps:
  "git_commit_parentcount big_root = 0 \<and>
   total_lines (snd big_tree) = 2147483648 \<and>
   rugged_commit_stats_of example_library big_repo big_root None = Inr stats_of_big_root \<and>
   unat (adds stats_of_big_root) = 18446744071562067968 \<and>
   rb_git_commit_stats_adds_GET stats_of_big_root = Fixnum (- 2147483648)"
proof -
  have root: "git_commit_parentcount big_root = 0"
    by (simp add: git_commit_parentcount_def big_root_def)
  have lines: "length (snd big_file) = 2147483648"
    by (simp add: big_file_def)
  have total: "total_lines (snd big_tree) = 2147483648"
    by (simp add: total_lines_def big_tree_def case_prod_unfold lines)
  have tree: "git_commit_tree big_repo big_root = Inr big_tree"
    by (simp add: git_commit_tree_def git_tree_lookup_def big_repo_def big_root_def big_tree_def)
  have diff: "git_diff_tree_to_tree example_library big_repo None (Some big_tree) =
      Inr \<lparr>diff_lines = file_lines GIT_DIFF_LINE_ADDITION big_file, foreach_failure = None\<rparr>"
    by (simp add: example_library_def example_diff_tree_to_tree_def big_tree_def)
  have counts: "git_commit_stats_of example_library big_repo big_tree None None =
      Inr (scast (word_of_nat 2147483648 :: 32 word), scast (word_of_nat 0 :: 32 word))"
    using git_commit_stats_of_counts [OF diff, of None]
    by (simp add: counted_file_lines lines)
  have wrap: "(scast (word_of_nat 2147483648 :: 32 word) :: 64 word) = 18446744071562067968"
    by simp
  have "rugged_commit_stats_of example_library big_repo big_root None =
      Inr ((new_commit_stats big_root)\<lparr>adds := 18446744071562067968, dels := 0\<rparr>)"
    by (simp add: rugged_commit_stats_of_def tree first_parent_tree_root [OF root]
        rugged_exception_check_def counts wrap)
  moreover have "(new_commit_stats big_root)\<lparr>adds := 18446744071562067968, dels := 0\<rparr> =
      stats_of_big_root"
    by (simp add: new_commit_stats_def stats_of_big_root_def big_root_def)
  ultimately have r: "rugged_commit_stats_of example_library big_repo big_root None =
      Inr stats_of_big_root"
    by simp
  have u: "unat (adds stats_of_big_root) = 18446744071562067968"
    by (simp add: stats_of_big_root_def)
  have g: "rb_git_commit_stats_adds_GET stats_of_big_root = Fixnum (- 2147483648)"
    by (simp add: rb_git_commit_stats_adds_GET_def stats_of_big_root_def)
  from root total r u g show ?thesis by simp
qed

section \<open>The bulk walk: offset, limit, merges and statistics\<close>

text \<open>
  What the loop yields for the ids it is given, were there no offset and no limit: the
  result of each commit that \<open>walk_one\<close> does not skip.
\<close>

definition results_of ::
  "git_library \<Rightarrow> git_repository \<Rightarrow> walk_options \<Rightarrow> git_oid list \<Rightarrow> rb_value list" where
  "results_of L repo w oids =
     List.map_filter (\<lambda>oid. case walk_one L repo w oid of Inr (Some v) \<Rightarrow> Some v | _ \<Rightarrow> None) oids"

text \<open>The number of yields after which a counter starting at \<open>l\<close> reaches zero.\<close>

definition limit_cap :: "64 word \<Rightarrow> nat" where
  "limit_cap l = (if l = 0 then 2 ^ 64 else unat l)"

lemma apply_walk_options_flags:
  "stats_only w' = stats_only w \<Longrightarrow> no_merges w' = no_merges w \<Longrightarrow>
     apply_walk_options L repo w' commit = apply_walk_options L repo w commit"
  by (simp add: apply_walk_options_def)

lemma walk_one_flags:
  assumes "oid_only w' = oid_only w" "stats_only w' = stats_only w" "no_merges w' = no_merges w"
  shows "walk_one L repo w' = walk_one L repo w"
proof
  fix oid
  have "apply_walk_options L repo w' c = apply_walk_options L repo w c" for c
    by (rule apply_walk_options_flags) (simp_all add: assms)
  then show "walk_one L repo w' oid = walk_one L repo w oid"
    by (simp add: walk_one_def assms cong: sum.case_cong)
qed

lemma walk_one_offset [simp]: "walk_one L repo (w\<lparr>offset := n\<rparr>) = walk_one L repo w"
  by (rule walk_one_flags) simp_all

lemma walk_one_limit [simp]: "walk_one L repo (w\<lparr>limit := n\<rparr>) = walk_one L repo w"
  by (rule walk_one_flags) simp_all

lemma results_of_offset [simp]: "results_of L repo (w\<lparr>offset := n\<rparr>) = results_of L repo w"
  by (rule ext) (simp add: results_of_def)

lemma results_of_limit [simp]: "results_of L repo (w\<lparr>limit := n\<rparr>) = results_of L repo w"
  by (rule ext) (simp add: results_of_def)

lemma limit_cap_step:
  "l - 1 \<noteq> 0 \<Longrightarrow> limit_cap l = Suc (limit_cap (l - 1))" for l :: "64 word"
proof (cases "l = 0")
  case True
  then show ?thesis by (simp add: limit_cap_def unsigned_minus_1_eq_mask mask_eq_exp_minus_1)
next
  case False
  assume "l - 1 \<noteq> 0"
  with False show ?thesis
    by (simp add: limit_cap_def unat_minus_one unat_gt_0)
qed

lemma limit_cap_one: "l - 1 = 0 \<Longrightarrow> limit_cap l = 1" for l :: "64 word"
  by (simp add: limit_cap_def)

lemma offset_step: "0 < n \<Longrightarrow> unat n = Suc (unat (n - 1))" for n :: "64 word"
  by (simp add: unat_minus_one word_greater_zero_iff unat_gt_0)

lemma do_walk_yields:
  assumes "\<forall>oid \<in> set (drop (unat (offset w)) oids). \<forall>e. walk_one L repo w oid \<noteq> Inl e"
  shows "fst (do_walk L repo w oids final) =
           take (limit_cap (limit w)) (results_of L repo w (drop (unat (offset w)) oids))"
  using assms
proof (induction oids arbitrary: w)
  case Nil
  show ?case by (simp add: results_of_def)
next
  case (Cons x xs)
  show ?case
  proof (cases "0 < offset w")
    case True
    let ?w = "w\<lparr>offset := offset w - 1\<rparr>"
    have d: "drop (unat (offset w)) (x # xs) = drop (unat (offset ?w)) xs"
      using offset_step [OF True] by simp
    from Cons.prems have "\<forall>oid \<in> set (drop (unat (offset ?w)) xs). \<forall>e. walk_one L repo ?w oid \<noteq> Inl e"
      unfolding d by simp
    from Cons.IH [OF this] True show ?thesis
      unfolding d by simp
  next
    case False
    then have z: "offset w = 0" by (simp add: word_greater_zero_iff)
    from Cons.prems z have nx: "\<forall>e. walk_one L repo w x \<noteq> Inl e"
      and rest: "\<forall>oid \<in> set (drop (unat (offset w)) xs). \<forall>e. walk_one L repo w oid \<noteq> Inl e"
      by simp_all
    show ?thesis
    proof (cases "walk_one L repo w x")
      case (Inl e)
      with nx show ?thesis by simp
    next
      case (Inr r)
      show ?thesis
      proof (cases r)
        case None
        with Inr z Cons.IH [OF rest] show ?thesis
          by (simp add: results_of_def map_filter_simps)
      next
        case (Some v)
        let ?w = "w\<lparr>limit := limit w - 1\<rparr>"
        have r: "results_of L repo w (x # xs) = v # results_of L repo w xs"
          using Inr Some by (simp add: results_of_def map_filter_simps)
        show ?thesis
        proof (cases "limit w - 1 = 0")
          case True
          with Inr Some z r show ?thesis
            by (simp add: limit_cap_one)
        next
          case False
          from rest z have "\<forall>oid \<in> set (drop (unat (offset ?w)) xs). \<forall>e. walk_one L repo ?w oid \<noteq> Inl e"
            by simp
          from Cons.IH [OF this] z
          have "fst (do_walk L repo ?w xs final) =
                  take (limit_cap (limit w - 1)) (results_of L repo w xs)"
            by simp
          with Inr Some z r False show ?thesis
            by (cases "do_walk L repo ?w xs final") (simp add: limit_cap_step [OF False])
        qed
      qed
    qed
  qed
qed


lemma load_walk_limits_flags:
  assumes "load_walk_limits w0 h = Inr w"
  shows "oid_only w = oid_only w0"
    and "RTEST (rb_hash_lookup h ''stats_only'') \<Longrightarrow> no_merges w = 1 \<and> stats_only w = 1"
  using assms
  by (auto simp: load_walk_limits_def Let_def split: sum.splits if_splits)

lemma load_walk_limits_offset:
  assumes "load_walk_limits w0 h = Inr w" "h ''offset'' = Some (Fixnum n)"
  shows "offset w = word_of_int n"
  using assms
  by (auto simp: load_walk_limits_def Let_def rb_hash_lookup_def NIL_P_def checked_FIX2ULONG_def
      split: sum.splits if_splits)

lemma load_walk_limits_limit:
  assumes "load_walk_limits w0 h = Inr w" "h ''limit'' = Some (Fixnum l)"
  shows "limit w = word_of_int l"
  using assms
  by (auto simp: load_walk_limits_def Let_def rb_hash_lookup_def [of h "''limit''"] NIL_P_def
      checked_FIX2ULONG_def [of "Fixnum l"]
      split: sum.splits if_splits)

lemma load_walk_limits_no_limit:
  assumes "load_walk_limits w0 h = Inr w" "h ''limit'' = None"
  shows "limit w = limit w0"
  using assms
  by (auto simp: load_walk_limits_def Let_def rb_hash_lookup_def [of h "''limit''"] NIL_P_def
      split: sum.splits if_splits)

lemma rb_hash_lookup_other [simp]:
  "k \<noteq> k' \<Longrightarrow> rb_hash_lookup (h(k' := v)) k = rb_hash_lookup h k"
  by (simp add: rb_hash_lookup_def)

lemma load_walk_limits_drop_limit:
  assumes "h ''limit'' = Some (Fixnum l)"
  shows "load_walk_limits w0 h =
           (case load_walk_limits w0 (h(''limit'' := None)) of
              Inl e \<Rightarrow> Inl e
            | Inr w \<Rightarrow> Inr (w\<lparr>limit := word_of_int l\<rparr>))"
proof -
  have a: "rb_hash_lookup h ''limit'' = Fixnum l" "rb_hash_lookup (h(''limit'' := None)) ''limit'' = Qnil"
    using assms by (simp_all add: rb_hash_lookup_def)
  show ?thesis
    by (simp add: load_walk_limits_def Let_def a NIL_P_def checked_FIX2ULONG_def [of "Fixnum l"]
        split: sum.splits)
qed

lemma load_all_options_drop_limit:
  assumes "h ''limit'' = Some (Fixnum l)"
  shows "load_all_options L repo ww h =
           (case load_all_options L repo ww (h(''limit'' := None)) of
              Inl e \<Rightarrow> Inl e
            | Inr (w, walk) \<Rightarrow> Inr (w\<lparr>limit := word_of_int l\<rparr>, walk))"
  by (simp add: load_all_options_def load_walk_limits_drop_limit [of h l, OF assms] Let_def
      split: sum.splits)

lemma load_all_options_flags:
  assumes "load_all_options L repo (w0, walk0) h = Inr (w, walk)"
  shows "oid_only w = (if RTEST (rb_hash_lookup h ''oid_only'') then 1 else oid_only w0)"
    and "RTEST (rb_hash_lookup h ''stats_only'') \<Longrightarrow> no_merges w = 1 \<and> stats_only w = 1"
    and "h ''limit'' = None \<Longrightarrow> limit w = limit w0"
proof -
  from assms obtain w1 where l: "load_walk_limits w0 h = Inr w1"
    and w: "w = (if RTEST (rb_hash_lookup h ''oid_only'') then w1\<lparr>oid_only := 1\<rparr> else w1)"
    by (auto simp: load_all_options_def Let_def split: sum.splits)
  from load_walk_limits_flags [OF l] w
  show "oid_only w = (if RTEST (rb_hash_lookup h ''oid_only'') then 1 else oid_only w0)"
    and "RTEST (rb_hash_lookup h ''stats_only'') \<Longrightarrow> no_merges w = 1 \<and> stats_only w = 1"
    by auto
  from load_walk_limits_no_limit [OF l] w
  show "h ''limit'' = None \<Longrightarrow> limit w = limit w0" by auto
qed


lemma limit_offset_commute:
  "w\<lparr>limit := a, offset := b\<rparr> = w\<lparr>offset := b, limit := a\<rparr>" for w :: walk_options
  by (cases w) simp

lemma do_walk_limit_irrelevant:
  "length oids < limit_cap l1 \<Longrightarrow> length oids < limit_cap l2 \<Longrightarrow>
     do_walk L repo (w\<lparr>limit := l1\<rparr>) oids final = do_walk L repo (w\<lparr>limit := l2\<rparr>) oids final"
proof (induction oids arbitrary: w l1 l2)
  case Nil
  show ?case by simp
next
  case (Cons x xs)
  have n1: "l1 - 1 \<noteq> 0"
  proof
    assume "l1 - 1 = 0"
    from limit_cap_one [OF this] Cons.prems(1) show False by simp
  qed
  have n2: "l2 - 1 \<noteq> 0"
  proof
    assume "l2 - 1 = 0"
    from limit_cap_one [OF this] Cons.prems(2) show False by simp
  qed
  from Cons.prems have s: "length xs < limit_cap l1" "length xs < limit_cap l2"
    and t: "length xs < limit_cap (l1 - 1)" "length xs < limit_cap (l2 - 1)"
    using limit_cap_step [OF n1] limit_cap_step [OF n2] by simp_all
  have skip: "do_walk L repo (w'\<lparr>limit := l1\<rparr>) xs final = do_walk L repo (w'\<lparr>limit := l2\<rparr>) xs final"
    for w'
    by (rule Cons.IH [OF s])
  have yield: "do_walk L repo (w\<lparr>limit := l1 - 1\<rparr>) xs final =
      do_walk L repo (w\<lparr>limit := l2 - 1\<rparr>) xs final"
    by (rule Cons.IH [OF t])
  show ?case
  proof (cases "0 < offset w")
    case True
    with skip [of "w\<lparr>offset := offset w - 1\<rparr>"] show ?thesis
      by (simp add: limit_offset_commute)
  next
    case False
    with n1 n2 skip [of w] yield show ?thesis
      by (simp split: sum.splits option.splits)
  qed
qed

subsection \<open>Offset and limit\<close>

text \<open>
  C4 (as the code has it). \<^verbatim>\<open>load_walk_limits\<close> reads \<^verbatim>\<open>offset\<close> and \<^verbatim>\<open>limit\<close> as
  unsigned 64-bit numbers. When every id the walker delivers names a commit of the
  repository, \<^verbatim>\<open>do_walk\<close> drops the first \<^verbatim>\<open>offset\<close> ids the walker delivers (before
  any commit is looked at, so before merges are filtered), passes the others through the
  filter, and with a limit of at least 1 yields the first \<^verbatim>\<open>limit\<close> results of those.
\<close>

theorem offset_skips_delivered_limit_caps_yielded:
  "(load_walk_limits w0 h = Inr w \<longrightarrow>
      (h ''offset'' = Some (Fixnum n) \<longrightarrow> offset w = word_of_int n) \<and>
      (h ''limit'' = Some (Fixnum l) \<longrightarrow> limit w = word_of_int l)) \<and>
   ((\<forall>oid \<in> set (drop (unat (offset w)) oids). \<forall>e. walk_one L repo w oid \<noteq> Inl e) \<longrightarrow>
    limit w \<noteq> 0 \<longrightarrow>
      fst (do_walk L repo w oids final) =
        take (unat (limit w)) (results_of L repo w (drop (unat (offset w)) oids)))"
proof (intro conjI impI)
  assume "load_walk_limits w0 h = Inr w" "h ''offset'' = Some (Fixnum n)"
  then show "offset w = word_of_int n" by (rule load_walk_limits_offset)
next
  assume "load_walk_limits w0 h = Inr w" "h ''limit'' = Some (Fixnum l)"
  then show "limit w = word_of_int l" by (rule load_walk_limits_limit)
next
  assume a: "\<forall>oid \<in> set (drop (unat (offset w)) oids). \<forall>e. walk_one L repo w oid \<noteq> Inl e"
    and "limit w \<noteq> 0"
  then have "limit_cap (limit w) = unat (limit w)" by (simp add: limit_cap_def)
  with do_walk_yields [OF a, of final]
  show "fst (do_walk L repo w oids final) =
        take (unat (limit w)) (results_of L repo w (drop (unat (offset w)) oids))"
    by simp
qed

definition initial_walk_options :: "int \<Rightarrow> walk_options" where
  "initial_walk_options stack =
     \<lparr>oid_only = 0, stats_only = 0, no_merges = stack, offset = 0, limit = - 1\<rparr>"

definition paging_options :: walk_options where
  "paging_options = \<lparr>oid_only = 0, stats_only = 0, no_merges = 1, offset = 1, limit = 2\<rparr>"

theorem offset_skips_delivered_limit_caps_yielded_witness:
  "load_walk_limits (initial_walk_options 0)
       [''no_merges'' \<mapsto> Qtrue, ''offset'' \<mapsto> Fixnum 1, ''limit'' \<mapsto> Fixnum 2] = Inr paging_options \<and>
   offset paging_options = 1 \<and> limit paging_options = 2 \<and>
   fst (do_walk example_library example_repo paging_options [3, 4, 2, 1] None) =
     [rugged_object_new (commit_object side_commit), rugged_object_new (commit_object child_commit)]"
proof -
  let ?h = "[''no_merges'' \<mapsto> Qtrue, ''offset'' \<mapsto> Fixnum 1, ''limit'' \<mapsto> Fixnum 2] :: rb_hash"
  note t = offset_skips_delivered_limit_caps_yielded [of "initial_walk_options 0" ?h paging_options
      1 2 "[3, 4, 2, 1]" example_library example_repo None]
  have l: "load_walk_limits (initial_walk_options 0) ?h = Inr paging_options"
    by code_simp
  have u: "unat (offset paging_options) = 1" "unat (limit paging_options) = 2"
    "limit paging_options \<noteq> 0"
    by (simp_all add: paging_options_def)
  have s: "walk_one example_library example_repo paging_options 4 =
      Inr (Some (rugged_object_new (commit_object side_commit)))"
    by code_simp
  have c: "walk_one example_library example_repo paging_options 2 =
      Inr (Some (rugged_object_new (commit_object child_commit)))"
    by code_simp
  have r: "walk_one example_library example_repo paging_options 1 =
      Inr (Some (rugged_object_new (commit_object root_commit)))"
    by code_simp
  have a: "\<forall>oid \<in> set (drop (unat (offset paging_options)) [3, 4, 2, 1]).
      \<forall>e. walk_one example_library example_repo paging_options oid \<noteq> Inl e"
    by (simp add: u s c r)
  from t [THEN conjunct1, rule_format, OF l] t [THEN conjunct2, THEN mp, THEN mp, OF a u(3)] l
  show ?thesis
    by (simp add: u results_of_def map_filter_simps s c r)
qed

text \<open>
  C4 as the specification states it fails. With \<^verbatim>\<open>no_merges\<close> the merge (id 3) is never
  yielded; an offset of 1 is spent on it, so no yielded result is skipped: the walk with
  offset 1 yields the same three commits as the walk without offset.
\<close>

theorem offset_spent_on_filtered_merge:
  "fst (rb_git_walk example_library example_repo
         (Some [''show'' \<mapsto> RString hex_of_merge, ''no_merges'' \<mapsto> Qtrue]) 0) =
     [rugged_object_new (commit_object side_commit), rugged_object_new (commit_object child_commit),
      rugged_object_new (commit_object root_commit)] \<and>
   fst (rb_git_walk example_library example_repo
         (Some [''show'' \<mapsto> RString hex_of_merge, ''no_merges'' \<mapsto> Qtrue, ''offset'' \<mapsto> Fixnum 1]) 0) =
     [rugged_object_new (commit_object side_commit), rugged_object_new (commit_object child_commit),
      rugged_object_new (commit_object root_commit)] \<and>
   fst (rb_git_walk example_library example_repo
         (Some [''show'' \<mapsto> RString hex_of_merge, ''no_merges'' \<mapsto> Qtrue, ''offset'' \<mapsto> Fixnum 1]) 0) \<noteq>
     drop 1 (fst (rb_git_walk example_library example_repo
         (Some [''show'' \<mapsto> RString hex_of_merge, ''no_merges'' \<mapsto> Qtrue]) 0))"
  by code_simp

subsection \<open>Statistics only\<close>







text \<open>
  A walk that yields ids (\<^verbatim>\<open>oid_only\<close> set) does not reach \<^verbatim>\<open>apply_walk_options\<close>:
  \<^verbatim>\<open>do_walk\<close> yields the id of every commit the walker delivers, whatever the other
  options say.
\<close>

lemma walk_of_ids_is_not_filtered:
  "fst (rb_git_walk example_library example_repo
         (Some [''show'' \<mapsto> RString hex_of_merge, ''stats_only'' \<mapsto> Qtrue, ''oid_only'' \<mapsto> Qtrue]) 0) =
     [RString ''0000000000000000000000000000000000000003'',
      RString ''0000000000000000000000000000000000000004'',
      RString ''0000000000000000000000000000000000000002'',
      RString ''0000000000000000000000000000000000000001''] \<and>
   git_commit_lookup example_repo 3 = Inr merge_commit \<and>
   git_commit_parentcount merge_commit = 2"
  by code_simp

subsection \<open>A limit of zero\<close>

text \<open>
  C9. \<^verbatim>\<open>--w->limit == 0\<close> is tested after the yield. A counter that starts at 0 is
  \<open>2\<^sup>6\<^sup>4 - 1\<close> after the first yield and the loop goes on; and when no walk of the
  repository delivers \<open>2\<^sup>6\<^sup>4 - 1\<close> ids or more, \<^verbatim>\<open>limit: 0\<close> gives what no limit at all
  gives.
\<close>

theorem limit_zero_is_unlimited:
  "(offset w = 0 \<longrightarrow> limit w = 0 \<longrightarrow> walk_one L repo w oid = Inr (Some v) \<longrightarrow>
      unat (limit w - 1) = 2 ^ 64 - 1 \<and>
      do_walk L repo w (oid # rest) final =
        (case do_walk L repo (w\<lparr>limit := limit w - 1\<rparr>) rest final of (ys, e) \<Rightarrow> (v # ys, e))) \<and>
   (h ''limit'' = Some (Fixnum 0) \<longrightarrow>
    (\<forall>walk. length (fst (git_revwalk_run L repo walk)) < 2 ^ 64 - 1) \<longrightarrow>
      rb_git_walk L repo (Some h) stack = rb_git_walk L repo (Some (h(''limit'' := None))) stack)"
proof (rule conjI; intro impI)
  assume "offset w = 0" "limit w = 0" "walk_one L repo w oid = Inr (Some v)"
  then show "unat (limit w - 1) = 2 ^ 64 - 1 \<and>
      do_walk L repo w (oid # rest) final =
      (case do_walk L repo (w\<lparr>limit := limit w - 1\<rparr>) rest final of (ys, e) \<Rightarrow> (v # ys, e))"
    by (simp add: unsigned_minus_1_eq_mask mask_eq_exp_minus_1)
next
  assume z: "h ''limit'' = Some (Fixnum 0)"
    and few: "\<forall>walk. length (fst (git_revwalk_run L repo walk)) < 2 ^ 64 - 1"
  let ?w0 = "\<lparr>oid_only = 0, stats_only = 0, no_merges = stack, offset = 0, limit = - 1\<rparr>"
  let ?h = "h(''limit'' := None)"
  show "rb_git_walk L repo (Some h) stack = rb_git_walk L repo (Some ?h) stack"
  proof (cases "load_all_options L repo (?w0, git_revwalk_new) ?h")
    case (Inl e)
    then show ?thesis
      by (simp add: rb_git_walk_def load_all_options_drop_limit [of h 0, OF z])
  next
    case (Inr ww)
    obtain w' walk where ww: "ww = (w', walk)" by (cases ww)
    obtain oids fin where run: "git_revwalk_run L repo walk = (oids, fin)"
      by (cases "git_revwalk_run L repo walk")
    from few run have len: "length oids < 2 ^ 64 - 1"
      by (metis fst_conv)
    from load_all_options_flags(3) [OF Inr [unfolded ww]] have "limit w' = - 1" by simp
    then have w': "w' = w'\<lparr>limit := - 1\<rparr>" by simp
    have "do_walk L repo (w'\<lparr>limit := 0\<rparr>) oids fin = do_walk L repo (w'\<lparr>limit := - 1\<rparr>) oids fin"
      using len
      by (intro do_walk_limit_irrelevant)
        (simp_all add: limit_cap_def unsigned_minus_1_eq_mask mask_eq_exp_minus_1)
    with w' have "do_walk L repo (w'\<lparr>limit := 0\<rparr>) oids fin = do_walk L repo w' oids fin"
      by simp
    with Inr ww run show ?thesis
      by (simp add: rb_git_walk_def load_all_options_drop_limit [of h 0, OF z])
  qed
qed

theorem limit_zero_is_unlimited_witness:
  "rb_git_walk example_library example_repo
       (Some [''show'' \<mapsto> RString hex_of_merge, ''limit'' \<mapsto> Fixnum 0]) 0 =
     rb_git_walk example_library example_repo (Some [''show'' \<mapsto> RString hex_of_merge]) 0 \<and>
   fst (rb_git_walk example_library example_repo
          (Some [''show'' \<mapsto> RString hex_of_merge, ''limit'' \<mapsto> Fixnum 0]) 0) =
     [rugged_object_new (commit_object merge_commit), rugged_object_new (commit_object side_commit),
      rugged_object_new (commit_object child_commit), rugged_object_new (commit_object root_commit)]"
proof -
  let ?h = "[''show'' \<mapsto> RString hex_of_merge, ''limit'' \<mapsto> Fixnum 0] :: rb_hash"
  have z: "?h ''limit'' = Some (Fixnum 0)" by simp
  have "length (fst (example_revwalk_run example_repo walk)) \<le> 4" for walk
    by (auto simp: example_revwalk_run_def example_ancestors_def split: list.splits tip.splits
        intro: le_trans [OF length_filter_le])
  then have "length (fst (example_revwalk_run example_repo walk)) < 2 ^ 64 - 1" for walk
    by (rule le_less_trans) simp
  then have few: "\<forall>walk. length (fst (git_revwalk_run example_library example_repo walk)) < 2 ^ 64 - 1"
    by (simp add: example_library_def)
  have e: "?h(''limit'' := None) = [''show'' \<mapsto> RString hex_of_merge]"
    by (rule ext) simp
  have y: "fst (rb_git_walk example_library example_repo (Some [''show'' \<mapsto> RString hex_of_merge]) 0) =
     [rugged_object_new (commit_object merge_commit), rugged_object_new (commit_object side_commit),
      rugged_object_new (commit_object child_commit), rugged_object_new (commit_object root_commit)]"
    by code_simp
  from limit_zero_is_unlimited [where h = ?h and L = example_library and repo = example_repo
      and stack = 0, THEN conjunct2, THEN mp, THEN mp, OF z few] e y
  show ?thesis by simp
qed

section \<open>Commit-ish\<close>

text \<open>
  The tag chain of the specification: from an object that is not a tag, the object itself;
  from a tag, what the chain from its target (looked up with any type) ends in.
\<close>

inductive peels_to :: "git_repository \<Rightarrow> git_object \<Rightarrow> git_object \<Rightarrow> bool" where
  not_a_tag: "git_object_type object \<noteq> GIT_OBJ_TAG \<Longrightarrow> peels_to repo object object"
| through_tag:
    "snd object = TagObj target \<Longrightarrow>
     git_object_lookup repo target GIT_OBJ_ANY = Inr object' \<Longrightarrow>
     peels_to repo object' terminal \<Longrightarrow>
     peels_to repo object terminal"

lemma peels_to_terminal: "peels_to repo object terminal \<Longrightarrow> git_object_type terminal \<noteq> GIT_OBJ_TAG"
  by (induction rule: peels_to.induct) simp_all

lemma peel_tags_peels_to:
  "peels_to repo object terminal \<Longrightarrow> peel_tags repo object = Some (Inr terminal)"
proof (induction rule: peels_to.induct)
  case (not_a_tag object repo)
  then show ?case
    by (subst peel_tags.simps) (simp add: git_object_type_def split: odb_object.splits)
next
  case (through_tag object target repo object' terminal)
  then show ?case
    by (subst peel_tags.simps) simp
qed

text \<open>
  C6. When the expression resolves to an object and the tag chain from that object ends in
  an object that is not a tag, \<^verbatim>\<open>rugged_commitish\<close> returns: that object when it is a
  commit, and otherwise libgit2's type-mismatch failure (class \<^verbatim>\<open>GITERR_INVALID\<close>, "The
  requested type does not match the type in ODB"), which \<^verbatim>\<open>Object.commitish\<close> raises
  (on a String without a NUL byte, which is what reaches \<^verbatim>\<open>rugged_commitish\<close>).
\<close>

theorem commitish_peels_tags_then_wants_commit:
  assumes "git_revparse_single L repo spec = Inr object"
    and "peels_to repo object terminal"
  shows "git_object_type terminal \<noteq> GIT_OBJ_TAG \<and>
         rugged_commitish L repo spec =
           Some (case snd terminal of
                   CommitObj c \<Rightarrow> Inr (fst terminal, c)
                 | _ \<Rightarrow> Inl type_mismatch) \<and>
         (CHR 0x00 \<notin> set spec \<longrightarrow>
          rb_git_object_commitish L repo (RString spec) =
            Some (if git_object_type terminal = GIT_OBJ_COMMIT then Inr (rugged_object_new terminal)
                  else Inl (RuggedError type_mismatch)))"
proof -
  have c: "rugged_commitish L repo spec =
      Some (case snd terminal of CommitObj c \<Rightarrow> Inr (fst terminal, c) | _ \<Rightarrow> Inl type_mismatch)"
    using assms(1) peel_tags_peels_to [OF assms(2)]
    by (simp add: rugged_commitish_def split: odb_object.splits)
  have "rb_git_object_commitish L repo (RString spec) =
      Some (if git_object_type terminal = GIT_OBJ_COMMIT then Inr (rugged_object_new terminal)
            else Inl (RuggedError type_mismatch))"
    if "CHR 0x00 \<notin> set spec"
    using that
    by (cases terminal; cases "snd terminal")
      (simp_all add: rb_git_object_commitish_def rugged_commitish_or_treeish_def c
        StringValueCStr_def rugged_exception_check_def git_object_type_def commit_object_def)
  with c peels_to_terminal [OF assms(2)] show ?thesis by simp
qed

theorem commitish_peels_tags_then_wants_commit_witness:
  "rb_git_object_commitish example_library example_repo (RString ''v1-signed'') =
     Some (Inr (rugged_object_new (commit_object child_commit))) \<and>
   rb_git_object_commitish example_library example_repo (RString ''tree-tag'') =
     Some (Inl (RuggedError type_mismatch))"
proof -
  have l: "git_object_lookup example_repo 21 GIT_OBJ_ANY = Inr (21, TagObj 20)"
    "git_object_lookup example_repo 20 GIT_OBJ_ANY = Inr (20, TagObj 2)"
    "git_object_lookup example_repo 2 GIT_OBJ_ANY = Inr (commit_object child_commit)"
    "git_object_lookup example_repo 22 GIT_OBJ_ANY = Inr (22, TagObj 10)"
    "git_object_lookup example_repo 10 GIT_OBJ_ANY = Inr (tree_object root_tree)"
    by code_simp+
  have r: "git_revparse_single example_library example_repo ''v1-signed'' = Inr (21, TagObj 20)"
    "git_revparse_single example_library example_repo ''tree-tag'' = Inr (22, TagObj 10)"
    by (simp_all add: example_library_def example_revparse_single_def example_refs_def l)
  have p1: "peels_to example_repo (21, TagObj 20) (commit_object child_commit)"
    by (rule peels_to.through_tag [OF _ l(2)], simp,
        rule peels_to.through_tag [OF _ l(3)], simp,
        rule peels_to.not_a_tag, simp add: git_object_type_def commit_object_def)
  have p2: "peels_to example_repo (22, TagObj 10) (tree_object root_tree)"
    by (rule peels_to.through_tag [OF _ l(5)], simp,
        rule peels_to.not_a_tag, simp add: git_object_type_def tree_object_def)
  have n: "CHR 0x00 \<notin> set ''v1-signed''" "CHR 0x00 \<notin> set ''tree-tag''"
    by simp_all
  from commitish_peels_tags_then_wants_commit [OF r(1) p1, THEN conjunct2, THEN conjunct2, THEN mp,
      OF n(1)]
    commitish_peels_tags_then_wants_commit [OF r(2) p2, THEN conjunct2, THEN conjunct2, THEN mp,
      OF n(2)]
  show ?thesis
    by (simp add: git_object_type_def commit_object_def tree_object_def)
qed

section \<open>Existence and lookup\<close>

lemma oid_length_small:
  assumes "length hex < 2 ^ 31"
  shows "(GIT_OID_HEXSZ <s (word_of_nat (length hex) :: 32 word)) = (40 < length hex)"
    and "((word_of_nat (length hex) :: 32 word) <s GIT_OID_HEXSZ) = (length hex < 40)"
    and "(scast (word_of_nat (length hex) :: 32 word) :: 64 word) = word_of_nat (length hex)"
  by (simp_all add: word_sless_alt GIT_OID_HEXSZ_def sint_count [OF assms] scast_count [OF assms])

text \<open>
  C10 (as the code has it). On a String \<^verbatim>\<open>Object.exists?\<close> returns \<^verbatim>\<open>true\<close> or
  \<^verbatim>\<open>false\<close> and never raises. It returns \<^verbatim>\<open>false\<close> when the String is longer than 40 characters (and shorter
  than \<open>2\<^sup>3\<^sup>1\<close>, its length being read into an \<^verbatim>\<open>int\<close>), when the hex decoding fails,
  and when the prefix lookup fails (no object or several); on a String longer than 40
  characters \<^verbatim>\<open>Object.lookup\<close> raises a TypeError.
\<close>

theorem exists_never_raises_lookup_does:
  "(rb_git_object_exists L klass repo (RString hex) = Inr Qtrue \<or>
    rb_git_object_exists L klass repo (RString hex) = Inr Qfalse) \<and>
   (40 < length hex \<longrightarrow> length hex < 2 ^ 31 \<longrightarrow>
      rb_git_object_exists L klass repo (RString hex) = Inr Qfalse \<and>
      rb_git_object_lookup L klass repo (RString hex) = Inl (TypeError ''The given OID is too long'')) \<and>
   (length hex \<le> 40 \<longrightarrow> git_oid_fromstrn L hex (word_of_nat (length hex)) = Inl f \<longrightarrow>
      rb_git_object_exists L klass repo (RString hex) = Inr Qfalse) \<and>
   (length hex \<le> 40 \<longrightarrow> git_oid_fromstrn L hex (word_of_nat (length hex)) = Inr oid \<longrightarrow>
    git_object_lookup_prefix L repo oid (word_of_nat (length hex))
        (if class2otype klass = GIT_OBJ_BAD then GIT_OBJ_ANY else class2otype klass) = Inl f \<longrightarrow>
      rb_git_object_exists L klass repo (RString hex) = Inr Qfalse)"
proof -
  have never: "rb_git_object_exists L klass repo (RString hex) = Inr Qtrue \<or>
      rb_git_object_exists L klass repo (RString hex) = Inr Qfalse"
    by (simp add: rb_git_object_exists_def Let_def split: sum.splits)
  have long: "rb_git_object_exists L klass repo (RString hex) = Inr Qfalse \<and>
      rb_git_object_lookup L klass repo (RString hex) = Inl (TypeError ''The given OID is too long'')"
    if "40 < length hex" "length hex < 2 ^ 31"
    using that(1) by (simp add: rb_git_object_exists_def rb_git_object_lookup_def Let_def
        oid_length_small [OF that(2)])
  have short: "length hex < 2 ^ 31" if "length hex \<le> 40"
    using that by (rule le_less_trans) simp
  have nohex: "rb_git_object_exists L klass repo (RString hex) = Inr Qfalse"
    if "length hex \<le> 40" "git_oid_fromstrn L hex (word_of_nat (length hex)) = Inl f"
    using that by (simp add: rb_git_object_exists_def Let_def oid_length_small [OF short])
  have nomatch: "rb_git_object_exists L klass repo (RString hex) = Inr Qfalse"
    if "length hex \<le> 40" "git_oid_fromstrn L hex (word_of_nat (length hex)) = Inr oid"
      "git_object_lookup_prefix L repo oid (word_of_nat (length hex))
        (if class2otype klass = GIT_OBJ_BAD then GIT_OBJ_ANY else class2otype klass) = Inl f"
    using that by (simp add: rb_git_object_exists_def Let_def oid_length_small [OF short])
  from never long nohex nomatch show ?thesis by blast
qed

theorem exists_never_raises_lookup_does_witness:
  "rb_git_object_exists example_library rb_cRuggedObject example_repo
       (RString ''00000000000000000000000000000000000000003'') = Inr Qfalse \<and>
   rb_git_object_lookup example_library rb_cRuggedObject example_repo
       (RString ''00000000000000000000000000000000000000003'') =
     Inl (TypeError ''The given OID is too long'') \<and>
   rb_git_object_exists example_library rb_cRuggedObject example_repo (RString ''xyz'') = Inr Qfalse \<and>
   rb_git_object_exists example_library rb_cRuggedObject example_repo
       (RString ''000000000000000000000000000000000000002'') = Inr Qfalse \<and>
   rb_git_object_exists example_library rb_cRuggedObject example_repo
       (RString ''000000000000000000000000000000000000000'') = Inr Qfalse \<and>
   rb_git_object_exists example_library rb_cRuggedObject example_repo
       (RString ''000000000000000000000000000000000000005'') = Inr Qtrue"
proof -
  let ?long = "''00000000000000000000000000000000000000003''"
  let ?none = "''000000000000000000000000000000000000002''"
  let ?many = "''000000000000000000000000000000000000000''"
  note t = exists_never_raises_lookup_does [where L = example_library and klass = rb_cRuggedObject
      and repo = example_repo]
  have a: "40 < length ?long" "length ?long < 2 ^ 31" by simp_all
  have b: "length ''xyz'' \<le> 40"
    "git_oid_fromstrn example_library ''xyz'' (word_of_nat (length ''xyz'')) = Inl invalid_hex"
    by code_simp+
  have c: "length ?none \<le> 40"
    "git_oid_fromstrn example_library ?none (word_of_nat (length ?none)) = Inr 32"
    "git_object_lookup_prefix example_library example_repo 32 (word_of_nat (length ?none))
       (if class2otype rb_cRuggedObject = GIT_OBJ_BAD then GIT_OBJ_ANY
        else class2otype rb_cRuggedObject) = Inl not_in_odb"
    by code_simp+
  have d: "length ?many \<le> 40"
    "git_oid_fromstrn example_library ?many (word_of_nat (length ?many)) = Inr 0"
    "git_object_lookup_prefix example_library example_repo 0 (word_of_nat (length ?many))
       (if class2otype rb_cRuggedObject = GIT_OBJ_BAD then GIT_OBJ_ANY
        else class2otype rb_cRuggedObject) = Inl ambiguous_prefix"
    by code_simp+
  have e: "rb_git_object_exists example_library rb_cRuggedObject example_repo
       (RString ''000000000000000000000000000000000000005'') = Inr Qtrue"
    by code_simp
  from t [where hex = ?long, THEN conjunct2, THEN conjunct1, THEN mp, THEN mp, OF a]
    t [where hex = "''xyz''" and f = invalid_hex, THEN conjunct2, THEN conjunct2, THEN conjunct1,
      THEN mp, THEN mp, OF b]
    t [where hex = ?none and oid = 32 and f = not_in_odb, THEN conjunct2, THEN conjunct2,
      THEN conjunct2, THEN mp, THEN mp, THEN mp, OF c]
    t [where hex = ?many and oid = 0 and f = ambiguous_prefix, THEN conjunct2, THEN conjunct2,
      THEN conjunct2, THEN mp, THEN mp, THEN mp, OF d]
    e
  show ?thesis by blast
qed

definition long_hex :: string where
  "long_hex = hex_of_merge @ replicate (2 ^ 32) CHR ''0''"

lemma example_oid_fromstrn_40:
  "length s = 40 \<Longrightarrow> example_oid_fromstrn (s @ t) 40 = example_oid_fromstrn s 40"
  by (simp add: example_oid_fromstrn_def)

text \<open>
  C10 as the specification states it fails for a String of \<open>2\<^sup>3\<^sup>2 + 40\<close> characters that
  starts with the id of the merge: its length reads as 40 in the \<^verbatim>\<open>int\<close>, so
  \<^verbatim>\<open>Object.exists?\<close> answers \<^verbatim>\<open>true\<close> and \<^verbatim>\<open>Object.lookup\<close> returns the merge.
\<close>

theorem over_length_string_read_as_40:
  "length long_hex = 4294967336 \<and>
   rb_git_object_exists example_library rb_cRuggedObject example_repo (RString long_hex) = Inr Qtrue \<and>
   rb_git_object_lookup example_library rb_cRuggedObject example_repo (RString long_hex) =
     Inr (rugged_object_new (commit_object merge_commit))"
proof -
  have len: "length long_hex = 4294967336"
    by (simp add: long_hex_def hex_of_merge_def)
  have l40: "length hex_of_merge = 40" by (simp add: hex_of_merge_def)
  have w: "(word_of_nat 4294967336 :: 32 word) = 40" by simp
  have hex: "git_oid_fromstrn example_library long_hex 40 = Inr 3"
  proof -
    have "example_oid_fromstrn hex_of_merge 40 = Inr 3" by code_simp
    then show ?thesis
      by (simp add: example_library_def long_hex_def example_oid_fromstrn_40 [OF l40])
  qed
  have pre: "git_object_lookup_prefix example_library example_repo 3 40 GIT_OBJ_ANY =
      Inr (commit_object merge_commit)"
    by code_simp
  have full: "git_object_lookup example_repo 3 GIT_OBJ_ANY = Inr (commit_object merge_commit)"
    by code_simp
  have ty: "class2otype rb_cRuggedObject = GIT_OBJ_BAD" by (simp add: class2otype_def)
  have e: "rb_git_object_exists example_library rb_cRuggedObject example_repo (RString long_hex) =
      Inr Qtrue"
    by (simp add: rb_git_object_exists_def Let_def len w ty GIT_OID_HEXSZ_def hex pre)
  have l: "rb_git_object_lookup example_library rb_cRuggedObject example_repo (RString long_hex) =
      Inr (rugged_object_new (commit_object merge_commit))"
    by (simp add: rb_git_object_lookup_def Let_def len w ty GIT_OID_HEXSZ_def hex full
        rugged_exception_check_def)
  from len e l show ?thesis by simp
qed

section \<open>Commits that the other repository lacks\<close>

text \<open>
  The first-parent chain of the specification: \<open>first_parent_path repo a before b\<close> when
  following parent 0 from \<open>a\<close> in \<open>repo\<close> reaches \<open>b\<close>, passing the ids \<open>before\<close> on the way
  (\<open>a\<close> first, \<open>b\<close> not included).
\<close>

inductive first_parent_path :: "git_repository \<Rightarrow> git_oid \<Rightarrow> git_oid list \<Rightarrow> git_oid \<Rightarrow> bool" where
  arrived: "first_parent_path repo a [] a"
| parent_0:
    "git_commit_lookup repo a = Inr commit \<Longrightarrow>
     git_commit_parent_id commit 0 = Some p \<Longrightarrow>
     first_parent_path repo p before b \<Longrightarrow>
     first_parent_path repo a (a # before) b"

lemma find_known_ancestor_found:
  "first_parent_path repo_a oid_a before known \<Longrightarrow>
   \<forall>x \<in> set before. \<not> git_odb_exists odb_b x \<Longrightarrow>
   git_odb_exists odb_b known \<Longrightarrow>
     find_known_ancestor repo_a odb_b oid_a = Some (Inr (Some known))"
proof (induction rule: first_parent_path.induct)
  case (arrived repo a)
  then show ?case by (subst find_known_ancestor.simps) simp
next
  case (parent_0 repo a commit p before b)
  then show ?case by (subst find_known_ancestor.simps) simp
qed

lemma find_known_ancestor_exhausted:
  "first_parent_path repo_a oid_a before reached \<Longrightarrow>
   \<forall>x \<in> set before. \<not> git_odb_exists odb_b x \<Longrightarrow>
   \<not> git_odb_exists odb_b reached \<Longrightarrow>
   git_commit_lookup repo_a reached = Inr root \<Longrightarrow>
   git_commit_parent_id root 0 = None \<Longrightarrow>
     find_known_ancestor repo_a odb_b oid_a = Some (Inr None)"
proof (induction rule: first_parent_path.induct)
  case (arrived repo a)
  then show ?case by (subst find_known_ancestor.simps) simp
next
  case (parent_0 repo a commit p before b)
  then show ?case by (subst find_known_ancestor.simps) simp
qed

text \<open>The walker of the final step: time-sorted, \<open>oid_b\<close> pushed, the boundary hidden if any.\<close>

definition time_sorted_walk :: "git_oid \<Rightarrow> git_oid option \<Rightarrow> git_revwalk" where
  "time_sorted_walk oid_b boundary =
     \<lparr>sorting = GIT_SORT_TIME, pushed = [TipOid oid_b],
      hidden = (case boundary of None \<Rightarrow> [] | Some b \<Rightarrow> [TipOid b]), first_parent = False\<rparr>"

lemma walk_from_hiding_collects:
  assumes "git_revwalk_push_check L repo_b (TipOid oid_b) False = None"
    and "case boundary of None \<Rightarrow> True
         | Some b \<Rightarrow> git_revwalk_push_check L repo_b (TipOid b) True = None"
    and "git_revwalk_run L repo_b (time_sorted_walk oid_b boundary) = (oids, None)"
  shows "walk_from_hiding L repo_b oid_b boundary = Inr (RArray (map rugged_create_oid oids))"
  using assms
  by (cases boundary)
    (simp_all add: walk_from_hiding_def time_sorted_walk_def git_revwalk_new_def Let_def)

text \<open>
  C2. Given two 40-character ids. Let the first-parent chain from \<open>oid_a\<close> in the first
  repository reach \<open>reached\<close> with no id before it in the object database of the second.
  If \<open>reached\<close> is not there either and is a commit without parents, or if it is there and
  \<^verbatim>\<open>git_merge_bases_many\<close> of it and \<open>oid_b\<close> answers \<^verbatim>\<open>GIT_ENOTFOUND\<close>, the result is
  the time-sorted walk from \<open>oid_b\<close> with nothing hidden. If \<open>reached\<close> is there and there are
  merge bases, the result is the time-sorted walk from \<open>oid_b\<close> with the first merge base
  hidden. In each case the function returns, with every id the walk delivers.
\<close>

theorem exclusive_commits_first_parent_cutoff:
  assumes "length commit_a = 40" "length commit_b = 40"
    and "git_oid_fromstr L commit_a = Inr oid_a" "git_oid_fromstr L commit_b = Inr oid_b"
    and "first_parent_path repo_a oid_a before reached"
    and "\<forall>x \<in> set before. \<not> git_odb_exists repo_b x"
  shows
    "(\<not> git_odb_exists repo_b reached \<longrightarrow> git_commit_lookup repo_a reached = Inr root \<longrightarrow>
      git_commit_parent_id root 0 = None \<longrightarrow>
        rb_git_commit_diff_between_repos L repo_a (RString commit_a) repo_b (RString commit_b) =
          Some (walk_from_hiding L repo_b oid_b None)) \<and>
     (git_odb_exists repo_b reached \<longrightarrow> git_merge_bases_many L repo_b [reached, oid_b] = Inl f \<longrightarrow>
      code f = GIT_ENOTFOUND \<longrightarrow>
        rb_git_commit_diff_between_repos L repo_a (RString commit_a) repo_b (RString commit_b) =
          Some (walk_from_hiding L repo_b oid_b None)) \<and>
     (git_odb_exists repo_b reached \<longrightarrow> git_merge_bases_many L repo_b [reached, oid_b] = Inr (base, others) \<longrightarrow>
        rb_git_commit_diff_between_repos L repo_a (RString commit_a) repo_b (RString commit_b) =
          Some (walk_from_hiding L repo_b oid_b (Some base))) \<and>
     (git_revwalk_push_check L repo_b (TipOid oid_b) False = None \<longrightarrow>
      (case boundary of None \<Rightarrow> True
       | Some b \<Rightarrow> git_revwalk_push_check L repo_b (TipOid b) True = None) \<longrightarrow>
      git_revwalk_run L repo_b (time_sorted_walk oid_b boundary) = (oids, None) \<longrightarrow>
        walk_from_hiding L repo_b oid_b boundary = Inr (RArray (map rugged_create_oid oids)))"
proof -
  let ?diff = "rb_git_commit_diff_between_repos L repo_a (RString commit_a) repo_b (RString commit_b)"
  have d: "?diff =
      (case find_known_ancestor repo_a repo_b oid_a of
         None \<Rightarrow> None
       | Some (Inl e) \<Rightarrow> Some (Inl e)
       | Some (Inr known) \<Rightarrow>
           Some (case hide_boundary L repo_b known oid_b of
                   Inl e \<Rightarrow> Inl e
                 | Inr boundary \<Rightarrow> walk_from_hiding L repo_b oid_b boundary))"
    using assms(1-4) by (simp add: rb_git_commit_diff_between_repos_def)
  have exhausted: "?diff = Some (walk_from_hiding L repo_b oid_b None)"
    if "\<not> git_odb_exists repo_b reached" "git_commit_lookup repo_a reached = Inr root"
      "git_commit_parent_id root 0 = None"
    using find_known_ancestor_exhausted [OF assms(5,6) that]
    by (simp add: d hide_boundary_def)
  have known: "find_known_ancestor repo_a repo_b oid_a = Some (Inr (Some reached))"
    if "git_odb_exists repo_b reached"
    using find_known_ancestor_found [OF assms(5,6) that] .
  have unrelated: "?diff = Some (walk_from_hiding L repo_b oid_b None)"
    if "git_odb_exists repo_b reached" "git_merge_bases_many L repo_b [reached, oid_b] = Inl f"
      "code f = GIT_ENOTFOUND"
    using known [OF that(1)] that(2,3) by (simp add: d hide_boundary_def)
  have related: "?diff = Some (walk_from_hiding L repo_b oid_b (Some base))"
    if "git_odb_exists repo_b reached" "git_merge_bases_many L repo_b [reached, oid_b] = Inr (base, others)"
    using known [OF that(1)] that(2) by (simp add: d hide_boundary_def)
  from exhausted unrelated related walk_from_hiding_collects [of L repo_b oid_b boundary oids]
  show ?thesis by blast
qed

text \<open>
  A fork of the example repository: commit 5 on top of commit 2, and commits 7 and 8 (8 a
  root, 7 its child) that the example repository does not have.
\<close>

definition fork_repo :: git_repository where
  "fork_repo =
     map_of
       ([(5, CommitObj \<lparr>tree_id = 11, parent_ids = [2], author = sig_at 400, committer = sig_at 400\<rparr>),
         (7, CommitObj \<lparr>tree_id = 10, parent_ids = [8], author = sig_at 500, committer = sig_at 500\<rparr>),
         (8, CommitObj \<lparr>tree_id = 10, parent_ids = [], author = sig_at 450, committer = sig_at 450\<rparr>)]
        @ example_objects)"

theorem exclusive_commits_first_parent_cutoff_witness:
  "rb_git_commit_diff_between_repos example_library
       fork_repo (RString ''0000000000000000000000000000000000000007'')
       example_repo (RString ''0000000000000000000000000000000000000003'') =
     Some (Inr (RArray (map rugged_create_oid [3, 4, 2, 1]))) \<and>
   rb_git_commit_diff_between_repos example_library
       fork_repo (RString ''0000000000000000000000000000000000000006'')
       example_repo (RString ''0000000000000000000000000000000000000003'') =
     Some (Inr (RArray (map rugged_create_oid [3, 4, 2, 1]))) \<and>
   rb_git_commit_diff_between_repos example_library
       fork_repo (RString ''0000000000000000000000000000000000000005'')
       example_repo (RString ''0000000000000000000000000000000000000003'') =
     Some (Inr (RArray (map rugged_create_oid [3, 4])))"
proof -
  let ?c3 = "''0000000000000000000000000000000000000003''"
  let ?c5 = "''0000000000000000000000000000000000000005''"
  let ?c6 = "''0000000000000000000000000000000000000006''"
  let ?c7 = "''0000000000000000000000000000000000000007''"
  note t = exclusive_commits_first_parent_cutoff [where L = example_library and repo_a = fork_repo
      and repo_b = example_repo and commit_b = ?c3 and oid_b = 3]
  have len: "length ?c3 = 40" "length ?c5 = 40" "length ?c6 = 40" "length ?c7 = 40"
    by simp_all
  have hex: "git_oid_fromstr example_library ?c3 = Inr 3"
    "git_oid_fromstr example_library ?c5 = Inr 5"
    "git_oid_fromstr example_library ?c6 = Inr 6"
    "git_oid_fromstr example_library ?c7 = Inr 7"
    by code_simp+
  have look: "git_commit_lookup fork_repo 7 =
      Inr (7, \<lparr>tree_id = 10, parent_ids = [8], author = sig_at 500, committer = sig_at 500\<rparr>)"
    "git_commit_lookup fork_repo 8 =
      Inr (8, \<lparr>tree_id = 10, parent_ids = [], author = sig_at 450, committer = sig_at 450\<rparr>)"
    "git_commit_lookup fork_repo 5 =
      Inr (5, \<lparr>tree_id = 11, parent_ids = [2], author = sig_at 400, committer = sig_at 400\<rparr>)"
    by code_simp+
  have odb: "\<not> git_odb_exists example_repo 7" "\<not> git_odb_exists example_repo 8"
    "\<not> git_odb_exists example_repo 5" "git_odb_exists example_repo 2"
    "git_odb_exists example_repo 6"
    by code_simp+
  have p7: "first_parent_path fork_repo 7 [7] 8"
    by (rule first_parent_path.parent_0 [OF look(1)])
      (simp add: git_commit_parent_id_def, rule first_parent_path.arrived)
  have p6: "first_parent_path fork_repo 6 [] 6"
    by (rule first_parent_path.arrived)
  have p5: "first_parent_path fork_repo 5 [5] 2"
    by (rule first_parent_path.parent_0 [OF look(3)])
      (simp add: git_commit_parent_id_def, rule first_parent_path.arrived)
  have b7: "\<forall>x \<in> set [7]. \<not> git_odb_exists example_repo x" using odb by simp
  have b6: "\<forall>x \<in> set []. \<not> git_odb_exists example_repo x" by simp
  have b5: "\<forall>x \<in> set [5]. \<not> git_odb_exists example_repo x" using odb by simp
  have root8: "git_commit_parent_id
      (8, \<lparr>tree_id = 10, parent_ids = [], author = sig_at 450, committer = sig_at 450\<rparr>) 0 = None"
    by (simp add: git_commit_parent_id_def)
  have mb6: "git_merge_bases_many example_library example_repo [6, 3] = Inl no_merge_base"
    "code no_merge_base = GIT_ENOTFOUND"
    by code_simp+
  have mb2: "git_merge_bases_many example_library example_repo [2, 3] = Inr (2, [])"
    by code_simp
  have push: "git_revwalk_push_check example_library example_repo (TipOid 3) False = None"
    "git_revwalk_push_check example_library example_repo (TipOid 2) True = None"
    by code_simp+
  have run: "git_revwalk_run example_library example_repo (time_sorted_walk 3 None) =
      ([3, 4, 2, 1], None)"
    "git_revwalk_run example_library example_repo (time_sorted_walk 3 (Some 2)) = ([3, 4], None)"
    by code_simp+
  have w0: "walk_from_hiding example_library example_repo 3 None =
      Inr (RArray (map rugged_create_oid [3, 4, 2, 1]))"
    using t [OF len(4) len(1) hex(4) hex(1) p7 b7, where boundary = None,
        THEN conjunct2, THEN conjunct2, THEN conjunct2, THEN mp, THEN mp, THEN mp, OF push(1) _ run(1)]
    by simp
  have w2: "walk_from_hiding example_library example_repo 3 (Some 2) =
      Inr (RArray (map rugged_create_oid [3, 4]))"
    using t [OF len(4) len(1) hex(4) hex(1) p7 b7, where boundary = "Some 2",
        THEN conjunct2, THEN conjunct2, THEN conjunct2, THEN mp, THEN mp, THEN mp, OF push(1) _ run(2)]
      push(2)
    by simp
  from t [OF len(4) len(1) hex(4) hex(1) p7 b7, THEN conjunct1, THEN mp, THEN mp, THEN mp,
      OF odb(2) look(2) root8]
    t [OF len(3) len(1) hex(3) hex(1) p6 b6, THEN conjunct2, THEN conjunct1, THEN mp, THEN mp, THEN mp,
      OF odb(5) mb6]
    t [OF len(2) len(1) hex(2) hex(1) p5 b5, THEN conjunct2, THEN conjunct2, THEN conjunct1,
      THEN mp, THEN mp, OF odb(4) mb2]
    w0 w2
  show ?thesis by simp
qed

section \<open>Statistics of many commits\<close>

subsection \<open>The counter\<close>

text \<open>
  The number of tasks that can be taken before the counter turns negative, and what holds of
  the counter whatever the schedule: it has counted that many tasks at most. The array is
  taken to hold fewer than \<open>2\<^sup>6\<^sup>3\<close> commits (its length is a \<^verbatim>\<open>long\<close>).
\<close>

definition claimable :: "commit_stat_tasks \<Rightarrow> nat" where
  "claimable p = min (length (tasks p)) (2 ^ 31)"

definition counter_ok :: "commit_stat_tasks \<Rightarrow> bool" where
  "counter_ok p =
     (length (tasks p) < 2 ^ 63 \<and> tasks_nr p = word_of_nat (length (tasks p)) \<and>
      unat (top p) \<le> claimable p)"

text \<open>
  Below that number the \<^verbatim>\<open>int\<close> reads as \<^verbatim>\<open>size_t\<close> without change and counts up by
  one; at \<open>2\<^sup>3\<^sup>1\<close> it is \<open>- 2\<^sup>3\<^sup>1\<close>, which reads as \<open>2\<^sup>6\<^sup>4 - 2\<^sup>3\<^sup>1\<close>, above any number
  of tasks.
\<close>

lemma int_top_as_size_t:
  fixes t :: "32 word" and n :: nat
  assumes n: "n < 2 ^ 63" and t: "unat t \<le> min n (2 ^ 31)"
  shows "((word_of_nat n :: 64 word) \<le> scast t) = (min n (2 ^ 31) \<le> unat t)"
    and "unat t < min n (2 ^ 31) \<Longrightarrow> unat (scast t :: 64 word) = unat t"
    and "unat t < min n (2 ^ 31) \<Longrightarrow> unat (t + 1) = Suc (unat t)"
proof -
  have n64: "unat (word_of_nat n :: 64 word) = n"
    using n by (simp add: unat_of_nat)
  have tw: "t = word_of_nat (unat t)" by simp
  show "((word_of_nat n :: 64 word) \<le> scast t) = (min n (2 ^ 31) \<le> unat t)"
  proof (cases "unat t < 2 ^ 31")
    case True
    have "unat (scast t :: 64 word) = unat t"
      using int_count_as_size_t [OF True] by simp
    then show ?thesis
      using True by (simp add: word_le_nat_alt n64 min_def)
  next
    case False
    with t have e: "unat t = 2 ^ 31" by simp
    then have "t = 2147483648" using tw by simp
    then have "unat (scast t :: 64 word) = 18446744071562067968" by simp
    then show ?thesis
      using n e by (simp add: word_le_nat_alt n64 min_def)
  qed
  show "unat (scast t :: 64 word) = unat t" if "unat t < min n (2 ^ 31)"
  proof -
    from that have "unat t < 2 ^ 31" by simp
    from int_count_as_size_t [OF this] show ?thesis by simp
  qed
  show "unat (t + 1) = Suc (unat t)" if "unat t < min n (2 ^ 31)"
  proof -
    from that have "unat t < 2 ^ 31" by simp
    then have "unat t + unat (1 :: 32 word) < 2 ^ LENGTH(32)" by simp
    then have "unat (t + 1) = unat t + unat (1 :: 32 word)"
      by (simp only: unat_add_lem [THEN iffD1])
    then show ?thesis by simp
  qed
qed

lemma take_task_counter:
  assumes "counter_ok p"
  shows "take_task p k =
     (if claimable p \<le> unat (top p) then p\<lparr>threads := (threads p)[k := Returned None]\<rparr>
      else p\<lparr>threads := (threads p)[k := Claimed (unat (top p))], top := top p + 1\<rparr>)"
    and "unat (top p) < claimable p \<Longrightarrow> unat (top p + 1) = Suc (unat (top p))"
proof -
  from assms have n: "length (tasks p) < 2 ^ 63"
    and nr: "tasks_nr p = word_of_nat (length (tasks p))"
    and t: "unat (top p) \<le> min (length (tasks p)) (2 ^ 31)"
    by (simp_all add: counter_ok_def claimable_def)
  note v = int_top_as_size_t [OF n t]
  show "take_task p k =
     (if claimable p \<le> unat (top p) then p\<lparr>threads := (threads p)[k := Returned None]\<rparr>
      else p\<lparr>threads := (threads p)[k := Claimed (unat (top p))], top := top p + 1\<rparr>)"
  proof (cases "claimable p \<le> unat (top p)")
    case True
    with v(1) show ?thesis by (simp add: take_task_def nr claimable_def)
  next
    case False
    then have "unat (top p) < min (length (tasks p)) (2 ^ 31)"
      unfolding claimable_def by (simp only: not_le)
    from v(2) [OF this] False v(1) show ?thesis
      by (simp add: take_task_def nr claimable_def)
  qed
  show "unat (top p) < claimable p \<Longrightarrow> unat (top p + 1) = Suc (unat (top p))"
    using v(3) by (simp add: claimable_def)
qed

subsection \<open>The invariant\<close>

text \<open>A task is done when its statistics hold the counts of the diff of its two trees.\<close>

definition task_done ::
  "git_library \<Rightarrow> git_repository \<Rightarrow> commit_stat_task \<Rightarrow> commit_stat_task \<Rightarrow> bool" where
  "task_done L repo t0 t =
     (\<exists>a d. git_commit_stats_of L repo (task_tree t0) (task_parent_tree t0) None = Inr (a, d) \<and>
            t = t0\<lparr>task_stats := (task_stats t0)\<lparr>adds := a, dels := d\<rparr>\<rparr>)"

text \<open>
  What holds of the shared state whatever the schedule, for the tasks \<open>ts\<close> as prepared:
  every task is as prepared or done; every index below \<^verbatim>\<open>top\<close> is done, or held by a
  thread, or some thread has returned a failure; a thread holds an index below \<^verbatim>\<open>top\<close>
  only; once a thread has returned without failure, \<^verbatim>\<open>top\<close> has counted every task that
  can be taken; and a task that cannot be taken is as prepared.
\<close>

definition pool_inv ::
  "git_library \<Rightarrow> git_repository \<Rightarrow> commit_stat_task list \<Rightarrow> nat \<Rightarrow> commit_stat_tasks \<Rightarrow> bool" where
  "pool_inv L repo ts n p =
     (counter_ok p \<and> length (tasks p) = length ts \<and> length (threads p) = n \<and>
      (\<forall>i < length ts. tasks p ! i = ts ! i \<or> task_done L repo (ts ! i) (tasks p ! i)) \<and>
      (\<forall>i < unat (top p). task_done L repo (ts ! i) (tasks p ! i) \<or> Claimed i \<in> set (threads p) \<or>
                    (\<exists>f. Returned (Some f) \<in> set (threads p))) \<and>
      (\<forall>i. Claimed i \<in> set (threads p) \<longrightarrow> i < unat (top p)) \<and>
      (Returned None \<in> set (threads p) \<longrightarrow> unat (top p) = claimable p) \<and>
      (\<forall>i. claimable p \<le> i \<longrightarrow> i < length ts \<longrightarrow> tasks p ! i = ts ! i))"

lemma pool_inv_start:
  "length ts < 2 ^ 63 \<Longrightarrow>
   pool_inv L repo ts n
     \<lparr>top = 0, tasks_nr = word_of_nat (length ts), tasks = ts, threads = replicate n AtLock\<rparr>"
  by (auto simp: pool_inv_def counter_ok_def claimable_def)

lemma pool_inv_top: "pool_inv L repo ts n p \<Longrightarrow> unat (top p) \<le> length ts"
  by (simp add: pool_inv_def counter_ok_def claimable_def)

lemma set_update_cases:
  assumes "x \<in> set (xs[k := y])"
  shows "x = y \<or> x \<in> set xs"
  using assms set_update_subset_insert [of xs k y] by auto

lemma set_update_keeps:
  assumes "x \<in> set xs" "k < length xs" "xs ! k \<noteq> x"
  shows "x \<in> set (xs[k := y])"
proof -
  from assms(1) obtain j where j: "j < length xs" "xs ! j = x" by (auto simp: in_set_conv_nth)
  with assms(3) have "j \<noteq> k" by auto
  with j have "xs[k := y] ! j = x" "j < length (xs[k := y])" by simp_all
  then show ?thesis by (metis nth_mem)
qed

lemma pool_inv_take_task:
  assumes inv: "pool_inv L repo ts n p" and k: "k < length (threads p)" "threads p ! k = AtLock"
  shows "pool_inv L repo ts n (take_task p k)"
proof (cases "claimable p \<le> unat (top p)")
  case True
  from inv have ok: "counter_ok p" by (simp add: pool_inv_def)
  from inv True have t: "unat (top p) = claimable p" by (simp add: pool_inv_def counter_ok_def)
  let ?p = "p\<lparr>threads := (threads p)[k := Returned None]\<rparr>"
  have keep: "x \<in> set (threads p) \<Longrightarrow> x \<noteq> AtLock \<Longrightarrow> x \<in> set (threads ?p)" for x
    using set_update_keeps [of x "threads p" k "Returned None"] k by auto
  have old: "x \<in> set (threads ?p) \<Longrightarrow> x = Returned None \<or> x \<in> set (threads p)" for x
    using set_update_cases [of x "threads p" k "Returned None"] by simp
  have "pool_inv L repo ts n ?p"
    unfolding pool_inv_def
  proof (intro conjI allI impI)
    show "counter_ok ?p" using ok by (simp add: counter_ok_def claimable_def)
    show "length (tasks ?p) = length ts" "length (threads ?p) = n"
      using inv by (simp_all add: pool_inv_def)
    show "tasks ?p ! i = ts ! i \<or> task_done L repo (ts ! i) (tasks ?p ! i)" if "i < length ts" for i
      using inv that by (simp add: pool_inv_def)
    show "task_done L repo (ts ! i) (tasks ?p ! i) \<or> Claimed i \<in> set (threads ?p) \<or>
          (\<exists>f. Returned (Some f) \<in> set (threads ?p))" if "i < unat (top ?p)" for i
    proof -
      from inv that have "task_done L repo (ts ! i) (tasks p ! i) \<or> Claimed i \<in> set (threads p) \<or>
          (\<exists>f. Returned (Some f) \<in> set (threads p))"
        by (simp add: pool_inv_def)
      then show ?thesis using keep by fastforce
    qed
    show "i < unat (top ?p)" if "Claimed i \<in> set (threads ?p)" for i
      using old [OF that] inv by (auto simp: pool_inv_def)
    show "unat (top ?p) = claimable ?p" using t by (simp add: claimable_def)
    show "tasks ?p ! i = ts ! i" if "claimable ?p \<le> i" "i < length ts" for i
      using inv that by (simp add: pool_inv_def claimable_def)
  qed
  with True show ?thesis by (simp add: take_task_counter(1) [OF ok])
next
  case False
  from inv have ok: "counter_ok p" by (simp add: pool_inv_def)
  from False have lt: "unat (top p) < claimable p" by simp
  note suc = take_task_counter(2) [OF ok lt]
  let ?p = "p\<lparr>threads := (threads p)[k := Claimed (unat (top p))], top := top p + 1\<rparr>"
  have keep: "x \<in> set (threads p) \<Longrightarrow> x \<noteq> AtLock \<Longrightarrow> x \<in> set (threads ?p)" for x
    using set_update_keeps [of x "threads p" k "Claimed (unat (top p))"] k by auto
  have old: "x \<in> set (threads ?p) \<Longrightarrow> x = Claimed (unat (top p)) \<or> x \<in> set (threads p)" for x
    using set_update_cases [of x "threads p" k "Claimed (unat (top p))"] by simp
  have new: "Claimed (unat (top p)) \<in> set (threads ?p)"
    using k by (simp add: set_update_memI)
  from inv lt have none: "Returned None \<notin> set (threads p)" by (auto simp: pool_inv_def)
  have "pool_inv L repo ts n ?p"
    unfolding pool_inv_def
  proof (intro conjI allI impI)
    show "counter_ok ?p" using ok lt suc by (simp add: counter_ok_def claimable_def)
    show "length (tasks ?p) = length ts" "length (threads ?p) = n"
      using inv by (simp_all add: pool_inv_def)
    show "tasks ?p ! i = ts ! i \<or> task_done L repo (ts ! i) (tasks ?p ! i)" if "i < length ts" for i
      using inv that by (simp add: pool_inv_def)
    show "task_done L repo (ts ! i) (tasks ?p ! i) \<or> Claimed i \<in> set (threads ?p) \<or>
          (\<exists>f. Returned (Some f) \<in> set (threads ?p))" if "i < unat (top ?p)" for i
    proof (cases "i = unat (top p)")
      case True
      with new show ?thesis by simp
    next
      case False
      with that suc have "i < unat (top p)" by simp
      with inv have "task_done L repo (ts ! i) (tasks p ! i) \<or> Claimed i \<in> set (threads p) \<or>
          (\<exists>f. Returned (Some f) \<in> set (threads p))"
        by (simp add: pool_inv_def)
      then show ?thesis using keep by fastforce
    qed
    show "i < unat (top ?p)" if "Claimed i \<in> set (threads ?p)" for i
      using old [OF that] inv suc by (auto simp: pool_inv_def less_Suc_eq)
    show "unat (top ?p) = claimable ?p" if "Returned None \<in> set (threads ?p)"
      using old [OF that] none by simp
    show "tasks ?p ! i = ts ! i" if "claimable ?p \<le> i" "i < length ts" for i
      using inv that by (simp add: pool_inv_def claimable_def)
  qed
  with False show ?thesis by (simp add: take_task_counter(1) [OF ok])
qed

lemma pool_inv_fail:
  assumes inv: "pool_inv L repo ts n p" and k: "k < length (threads p)"
    and t: "unat (top p) \<le> unat t" "unat t \<le> claimable p"
      "Returned None \<in> set (threads p) \<longrightarrow> unat t = claimable p"
  shows "pool_inv L repo ts n (p\<lparr>threads := (threads p)[k := Returned (Some f)], top := t\<rparr>)"
proof -
  let ?p = "p\<lparr>threads := (threads p)[k := Returned (Some f)], top := t\<rparr>"
  have old: "x \<in> set (threads ?p) \<Longrightarrow> x = Returned (Some f) \<or> x \<in> set (threads p)" for x
    using set_update_cases [of x "threads p" k "Returned (Some f)"] by simp
  have new: "Returned (Some f) \<in> set (threads ?p)"
    using k by (simp add: set_update_memI)
  show ?thesis
    unfolding pool_inv_def
  proof (intro conjI allI impI)
    show "counter_ok ?p" using inv t by (simp add: pool_inv_def counter_ok_def claimable_def)
    show "length (tasks ?p) = length ts" "length (threads ?p) = n"
      using inv t by (simp_all add: pool_inv_def)
    show "tasks ?p ! i = ts ! i \<or> task_done L repo (ts ! i) (tasks ?p ! i)" if "i < length ts" for i
      using inv that by (simp add: pool_inv_def)
    show "task_done L repo (ts ! i) (tasks ?p ! i) \<or> Claimed i \<in> set (threads ?p) \<or>
          (\<exists>f. Returned (Some f) \<in> set (threads ?p))" if "i < unat (top ?p)" for i
      using new by blast
    show "i < unat (top ?p)" if "Claimed i \<in> set (threads ?p)" for i
      using old [OF that] inv t by (auto simp: pool_inv_def)
    show "unat (top ?p) = claimable ?p" if "Returned None \<in> set (threads ?p)"
      using old [OF that] t by (simp add: claimable_def)
    show "tasks ?p ! i = ts ! i" if "claimable ?p \<le> i" "i < length ts" for i
      using inv that by (simp add: pool_inv_def claimable_def)
  qed
qed

lemma pool_inv_compute_task:
  assumes inv: "pool_inv L repo ts n p" and k: "k < length (threads p)" "threads p ! k = Claimed i"
  shows "pool_inv L repo ts n (compute_task L repo p k i)"
proof -
  from k have "Claimed i \<in> set (threads p)" by (metis nth_mem)
  with inv have it: "i < unat (top p)" by (auto simp: pool_inv_def)
  with inv have i: "i < length ts" "i < length (tasks p)" "i < claimable p"
    by (auto simp: pool_inv_def counter_ok_def claimable_def)
  from inv i(1) have either: "tasks p ! i = ts ! i \<or> task_done L repo (ts ! i) (tasks p ! i)"
    by (simp add: pool_inv_def)
  then have same: "task_tree (tasks p ! i) = task_tree (ts ! i)"
    "task_parent_tree (tasks p ! i) = task_parent_tree (ts ! i)"
    by (auto simp: task_done_def)
  show ?thesis
  proof (cases "git_commit_stats_of L repo (task_tree (ts ! i)) (task_parent_tree (ts ! i)) None")
    case (Inl f)
    from inv have "unat (top p) \<le> claimable p" by (simp add: pool_inv_def counter_ok_def)
    from pool_inv_fail [OF inv k(1), of "top p" f] this inv
    have "pool_inv L repo ts n (p\<lparr>threads := (threads p)[k := Returned (Some f)]\<rparr>)"
      by (simp add: pool_inv_def)
    with Inl show ?thesis by (simp add: compute_task_def same)
  next
    case (Inr ad)
    obtain a d where ad: "ad = (a, d)" by (cases ad)
    let ?t = "(tasks p ! i)\<lparr>task_stats := (task_stats (tasks p ! i))\<lparr>adds := a, dels := d\<rparr>\<rparr>"
    let ?p = "p\<lparr>tasks := (tasks p)[i := ?t], threads := (threads p)[k := AtLock]\<rparr>"
    from either have "?t = (ts ! i)\<lparr>task_stats := (task_stats (ts ! i))\<lparr>adds := a, dels := d\<rparr>\<rparr>"
      by (auto simp: task_done_def)
    with Inr ad have finished: "task_done L repo (ts ! i) ?t"
      by (simp add: task_done_def)
    have old: "x \<in> set (threads ?p) \<Longrightarrow> x = AtLock \<or> x \<in> set (threads p)" for x
      using set_update_cases [of x "threads p" k AtLock] by simp
    have keep: "x \<in> set (threads p) \<Longrightarrow> x \<noteq> Claimed i \<Longrightarrow> x \<in> set (threads ?p)" for x
      using set_update_keeps [of x "threads p" k AtLock] k by auto
    have "pool_inv L repo ts n ?p"
      unfolding pool_inv_def
    proof (intro conjI allI impI)
      show "counter_ok ?p" using inv by (simp add: pool_inv_def counter_ok_def claimable_def)
      show "length (tasks ?p) = length ts" "length (threads ?p) = n"
        using inv by (simp_all add: pool_inv_def)
      show "tasks ?p ! j = ts ! j \<or> task_done L repo (ts ! j) (tasks ?p ! j)" if "j < length ts" for j
      proof (cases "j = i")
        case True
        with finished i show ?thesis by simp
      next
        case False
        with inv that show ?thesis by (simp add: pool_inv_def)
      qed
      show "task_done L repo (ts ! j) (tasks ?p ! j) \<or> Claimed j \<in> set (threads ?p) \<or>
            (\<exists>f. Returned (Some f) \<in> set (threads ?p))" if "j < unat (top ?p)" for j
      proof (cases "j = i")
        case True
        with finished i show ?thesis by simp
      next
        case False
        from inv that have "task_done L repo (ts ! j) (tasks p ! j) \<or> Claimed j \<in> set (threads p) \<or>
            (\<exists>f. Returned (Some f) \<in> set (threads p))"
          by (simp add: pool_inv_def)
        with False show ?thesis using keep by fastforce
      qed
      show "j < unat (top ?p)" if "Claimed j \<in> set (threads ?p)" for j
        using old [OF that] inv by (auto simp: pool_inv_def)
      show "unat (top ?p) = claimable ?p" if "Returned None \<in> set (threads ?p)"
        using old [OF that] inv by (auto simp: pool_inv_def claimable_def)
      show "tasks ?p ! j = ts ! j" if "claimable ?p \<le> j" "j < length ts" for j
      proof -
        from that(1) i(3) have "j \<noteq> i" by (auto simp: claimable_def)
        with inv that show ?thesis by (simp add: pool_inv_def claimable_def)
      qed
    qed
    with Inr ad show ?thesis by (simp add: compute_task_def same Let_def)
  qed
qed

lemma pool_inv_step:
  assumes "pool_inv L repo ts n p"
  shows "pool_inv L repo ts n (commit_stat_task_proc L repo ev p)"
proof (cases ev)
  case (Run k)
  show ?thesis
  proof (cases "k < length (threads p)")
    case True
    then show ?thesis
      using assms Run pool_inv_take_task [OF assms True] pool_inv_compute_task [OF assms True]
      by (cases "threads p ! k") (simp_all add: commit_stat_task_proc_def)
  next
    case False
    with assms Run show ?thesis by (simp add: commit_stat_task_proc_def)
  qed
next
  case (LockFails k)
  show ?thesis
  proof (cases "k < length (threads p) \<and> threads p ! k = AtLock")
    case True
    from assms have "pool_inv L repo ts n (p\<lparr>threads := (threads p)[k := Returned (Some lock_failure)],
        top := top p\<rparr>)"
      by (intro pool_inv_fail) (use True in \<open>auto simp: pool_inv_def counter_ok_def\<close>)
    with True LockFails show ?thesis by (simp add: commit_stat_task_proc_def)
  next
    case False
    with assms LockFails show ?thesis by (auto simp: commit_stat_task_proc_def)
  qed
next
  case (UnlockFails k)
  from assms have ok: "counter_ok p" by (simp add: pool_inv_def)
  show ?thesis
  proof (cases "k < length (threads p) \<and> threads p ! k = AtLock")
    case True
    let ?t = "if claimable p \<le> unat (top p) then top p else top p + 1"
    have e: "(take_task p k)\<lparr>threads := (threads p)[k := Returned (Some unlock_failure)]\<rparr> =
        p\<lparr>threads := (threads p)[k := Returned (Some unlock_failure)], top := ?t\<rparr>"
      by (simp add: take_task_counter(1) [OF ok])
    have u: "unat ?t = (if claimable p \<le> unat (top p) then unat (top p) else Suc (unat (top p)))"
      using take_task_counter(2) [OF ok] by auto
    from assms have "pool_inv L repo ts n
        (p\<lparr>threads := (threads p)[k := Returned (Some unlock_failure)], top := ?t\<rparr>)"
      by (intro pool_inv_fail) (use True u in \<open>auto simp: pool_inv_def counter_ok_def\<close>)
    with True UnlockFails e show ?thesis by (simp add: commit_stat_task_proc_def)
  next
    case False
    with assms UnlockFails show ?thesis by (auto simp: commit_stat_task_proc_def)
  qed
qed

lemma pool_inv_schedule:
  "pool_inv L repo ts n p \<Longrightarrow> pool_inv L repo ts n (fold (commit_stat_task_proc L repo) schedule p)"
  by (induction schedule arbitrary: p) (simp_all add: pool_inv_step)

lemma pool_inv_run_threads:
  "length ts < 2 ^ 63 \<Longrightarrow> pool_inv L repo ts n (run_threads L repo ts n schedule)"
  unfolding run_threads_def by (rule pool_inv_schedule [OF pool_inv_start])

lemma join_threads_all_fine:
  "join_threads os ws i = Some None \<Longrightarrow> \<forall>w \<in> set ws. w = Returned None"
proof (induction ws arbitrary: i)
  case Nil
  show ?case by simp
next
  case (Cons w ws)
  from Cons.prems have "w = Returned None" "join_threads os ws (Suc i) = Some None"
    by (auto split: worker.splits if_splits option.splits)
  with Cons.IH show ?case by auto
qed

lemma prepare_tasks_nth:
  "prepare_tasks repo commits = Inr ts \<Longrightarrow>
     length ts = length commits \<and> (\<forall>i < length commits. prepare_task repo (commits ! i) = Inr (ts ! i))"
proof (induction commits arbitrary: ts)
  case Nil
  then show ?case by simp
next
  case (Cons c commits)
  from Cons.prems obtain t ts' where t: "prepare_task repo c = Inr t"
    and ts': "prepare_tasks repo commits = Inr ts'" and ts: "ts = t # ts'"
    by (auto split: sum.splits)
  from Cons.IH [OF ts'] t ts show ?case
    by (auto simp: nth_Cons split: nat.splits)
qed

lemma prepared_task_done:
  assumes "prepare_task repo commit = Inr t0" and "task_done L repo t0 t"
  shows "rugged_commit_stats_of L repo commit None = Inr (task_stats t) \<and>
         stats_oid (task_stats t) = fst commit \<and>
         stats_author (task_stats t) = author (snd commit) \<and>
         stats_committer (task_stats t) = committer (snd commit) \<and>
         (\<exists>tree parent_tree.
            git_commit_tree repo commit = Inr tree \<and>
            first_parent_tree repo commit = Inr parent_tree \<and>
            git_commit_stats_of L repo tree parent_tree None =
              Inr (adds (task_stats t), dels (task_stats t)))"
proof -
  from assms(1) obtain tree parent_tree where
    a: "git_commit_tree repo commit = Inr tree" "first_parent_tree repo commit = Inr parent_tree"
    and t0: "t0 = \<lparr>task_tree = tree, task_parent_tree = parent_tree,
                   task_stats = new_commit_stats commit\<rparr>"
    by (auto simp: prepare_task_def split: sum.splits)
  from assms(2) t0 obtain x y where
    s: "git_commit_stats_of L repo tree parent_tree None = Inr (x, y)"
    and t: "task_stats t = (new_commit_stats commit)\<lparr>adds := x, dels := y\<rparr>"
    by (auto simp: task_done_def)
  from a s t show ?thesis
    by (simp add: rugged_commit_stats_of_def rugged_exception_check_def new_commit_stats_def)
qed


subsection \<open>Every schedule can be run to the end\<close>

text \<open>Letting each thread in turn take \<open>2 n + 2\<close> steps, which is enough for it to return.\<close>

definition each_in_turn :: "nat \<Rightarrow> nat list \<Rightarrow> event list" where
  "each_in_turn n ks = concat (map (\<lambda>k. replicate (2 * n + 2) (Run k)) ks)"

definition steps_left :: "commit_stat_tasks \<Rightarrow> nat \<Rightarrow> nat" where
  "steps_left p k =
     (case threads p ! k of
        Returned _ \<Rightarrow> 0
      | AtLock \<Rightarrow> 2 * (claimable p - unat (top p)) + 1
      | Claimed _ \<Rightarrow> 2 * (claimable p - unat (top p)) + 2)"

lemma counter_ok_threads [simp]: "counter_ok (p\<lparr>threads := ws\<rparr>) = counter_ok p"
  by (simp add: counter_ok_def claimable_def)

lemma counter_ok_take_task: "counter_ok p \<Longrightarrow> counter_ok (take_task p k)"
proof (cases "claimable p \<le> unat (top p)")
  case True
  assume "counter_ok p"
  with True show ?thesis by (simp add: take_task_counter(1))
next
  case False
  assume ok: "counter_ok p"
  from False have "unat (top p) < claimable p" by simp
  from take_task_counter(2) [OF ok this] this ok False show ?thesis
    by (simp add: take_task_counter(1) [OF ok] counter_ok_def claimable_def)
qed

lemma counter_ok_step: "counter_ok p \<Longrightarrow> counter_ok (commit_stat_task_proc L repo ev p)"
proof (cases ev)
  case (Run k)
  assume ok: "counter_ok p"
  have "counter_ok (compute_task L repo p k i)" for i
    using ok by (simp add: compute_task_def Let_def counter_ok_def claimable_def split: sum.splits)
  with ok counter_ok_take_task [OF ok, of k] Run show ?thesis
    by (simp add: commit_stat_task_proc_def split: worker.splits)
next
  case (LockFails k)
  assume "counter_ok p"
  with LockFails show ?thesis by (simp add: commit_stat_task_proc_def)
next
  case (UnlockFails k)
  assume ok: "counter_ok p"
  with counter_ok_take_task [OF ok, of k] UnlockFails show ?thesis
    by (simp add: commit_stat_task_proc_def)
qed

lemma step_shape:
  "length (threads (commit_stat_task_proc L repo ev p)) = length (threads p) \<and>
   length (tasks (commit_stat_task_proc L repo ev p)) = length (tasks p)"
  by (auto simp: commit_stat_task_proc_def take_task_def compute_task_def Let_def
      split: event.splits worker.splits sum.splits)

lemma run_other_thread:
  "j \<noteq> k \<Longrightarrow> threads (commit_stat_task_proc L repo (Run k) p) ! j = threads p ! j"
  by (auto simp: commit_stat_task_proc_def take_task_def compute_task_def Let_def
      split: worker.splits sum.splits)

lemma run_steps_left:
  assumes "k < length (threads p)" and ok: "counter_ok p"
  shows "steps_left (commit_stat_task_proc L repo (Run k) p) k \<le> steps_left p k - 1"
proof (cases "threads p ! k")
  case AtLock
  show ?thesis
  proof (cases "claimable p \<le> unat (top p)")
    case True
    with assms AtLock show ?thesis
      by (simp add: steps_left_def commit_stat_task_proc_def take_task_counter(1) [OF ok])
  next
    case False
    then have "unat (top p) < claimable p" by simp
    from take_task_counter(2) [OF ok this] this assms AtLock False show ?thesis
      by (simp add: steps_left_def commit_stat_task_proc_def take_task_counter(1) [OF ok]
          claimable_def)
  qed
next
  case (Claimed i)
  with assms show ?thesis
    by (auto simp: steps_left_def commit_stat_task_proc_def compute_task_def Let_def claimable_def
        split: sum.splits)
next
  case (Returned r)
  with assms show ?thesis
    by (simp add: steps_left_def commit_stat_task_proc_def)
qed

lemma run_thread_often:
  assumes "k < length (threads p)" and "counter_ok p"
  shows "steps_left ((commit_stat_task_proc L repo (Run k) ^^ m) p) k \<le> steps_left p k - m \<and>
         counter_ok ((commit_stat_task_proc L repo (Run k) ^^ m) p) \<and>
         length (threads ((commit_stat_task_proc L repo (Run k) ^^ m) p)) = length (threads p) \<and>
         length (tasks ((commit_stat_task_proc L repo (Run k) ^^ m) p)) = length (tasks p) \<and>
         (\<forall>j. j \<noteq> k \<longrightarrow>
            threads ((commit_stat_task_proc L repo (Run k) ^^ m) p) ! j = threads p ! j)"
  using assms
proof (induction m arbitrary: p)
  case 0
  then show ?case by simp
next
  case (Suc m)
  let ?f = "commit_stat_task_proc L repo (Run k)"
  have k: "k < length (threads (?f p))" using Suc.prems by (simp add: step_shape)
  have ok: "counter_ok (?f p)" using Suc.prems by (simp add: counter_ok_step)
  have e: "(?f ^^ Suc m) p = (?f ^^ m) (?f p)" by (simp add: funpow_swap1)
  from Suc.IH [OF k ok] have
    a: "steps_left ((?f ^^ m) (?f p)) k \<le> steps_left (?f p) k - m"
    and o: "counter_ok ((?f ^^ m) (?f p))"
    and b: "length (threads ((?f ^^ m) (?f p))) = length (threads (?f p))"
      "length (tasks ((?f ^^ m) (?f p))) = length (tasks (?f p))"
    and c: "\<forall>j. j \<noteq> k \<longrightarrow> threads ((?f ^^ m) (?f p)) ! j = threads (?f p) ! j"
    by simp_all
  from a run_steps_left [OF Suc.prems, where L = L and repo = repo]
  have "steps_left ((?f ^^ m) (?f p)) k \<le> steps_left p k - Suc m" by arith
  with o b c show ?case
    unfolding e by (simp add: step_shape run_other_thread)
qed

lemma run_thread_to_return:
  assumes "k < length (threads p)" and "counter_ok p"
  shows "\<exists>r. threads ((commit_stat_task_proc L repo (Run k) ^^ (2 * length (tasks p) + 2)) p) ! k =
           Returned r"
proof -
  let ?q = "(commit_stat_task_proc L repo (Run k) ^^ (2 * length (tasks p) + 2)) p"
  have "claimable p - unat (top p) \<le> length (tasks p)" by (simp add: claimable_def)
  then have "steps_left p k \<le> 2 * length (tasks p) + 2"
    by (cases "threads p ! k") (simp_all add: steps_left_def)
  with run_thread_often [OF assms, where L = L and repo = repo and m = "2 * length (tasks p) + 2"]
  have "steps_left ?q k = 0" by simp
  then show ?thesis
    by (cases "threads ?q ! k") (simp_all add: steps_left_def)
qed

lemma fold_each_in_turn_Cons:
  "fold (commit_stat_task_proc L repo) (each_in_turn n (k # ks)) p =
     fold (commit_stat_task_proc L repo) (each_in_turn n ks)
       ((commit_stat_task_proc L repo (Run k) ^^ (2 * n + 2)) p)"
  unfolding each_in_turn_def
  by (simp only: list.map concat.simps fold_append comp_apply fold_replicate)

lemma each_in_turn_other_thread:
  assumes "k \<notin> set js"
  shows "threads (fold (commit_stat_task_proc L repo) (each_in_turn n js) s) ! k = threads s ! k"
  using assms
proof (induction js arbitrary: s)
  case Nil
  show ?case by (simp add: each_in_turn_def)
next
  case (Cons j js)
  then have j: "j \<noteq> k" and k: "k \<notin> set js" by auto
  have m: "threads ((commit_stat_task_proc L repo (Run j) ^^ m) s) ! k = threads s ! k" for m
    by (induction m) (simp_all add: run_other_thread [OF j [symmetric]])
  from Cons.IH [OF k] m show ?case
    by (simp only: fold_each_in_turn_Cons)
qed

lemma each_in_turn_returns:
  assumes "\<forall>k \<in> set ks. k < length (threads p)" and "counter_ok p"
  shows "(\<forall>k \<in> set ks. \<exists>r. threads (fold (commit_stat_task_proc L repo)
                                       (each_in_turn (length (tasks p)) ks) p) ! k = Returned r) \<and>
         length (threads (fold (commit_stat_task_proc L repo) (each_in_turn (length (tasks p)) ks) p)) =
           length (threads p)"
  using assms
proof (induction ks arbitrary: p)
  case Nil
  show ?case by (simp add: each_in_turn_def)
next
  case (Cons k ks)
  let ?n = "length (tasks p)"
  let ?q = "(commit_stat_task_proc L repo (Run k) ^^ (2 * ?n + 2)) p"
  let ?r = "fold (commit_stat_task_proc L repo) (each_in_turn ?n ks) ?q"
  from Cons.prems have k: "k < length (threads p)" by simp
  from run_thread_often [OF k Cons.prems(2), where L = L and repo = repo and m = "2 * ?n + 2"]
  have shape: "length (threads ?q) = length (threads p)" "length (tasks ?q) = ?n"
    and ok: "counter_ok ?q"
    by simp_all
  from Cons.prems shape have "\<forall>j \<in> set ks. j < length (threads ?q)" by simp
  from Cons.IH [OF this ok] shape
  have ih: "\<forall>j \<in> set ks. \<exists>r. threads ?r ! j = Returned r" "length (threads ?r) = length (threads p)"
    by simp_all
  have e: "fold (commit_stat_task_proc L repo) (each_in_turn ?n (k # ks)) p = ?r"
    by (rule fold_each_in_turn_Cons)
  have "\<exists>r. threads ?r ! k = Returned r"
  proof (cases "k \<in> set ks")
    case True
    with ih(1) show ?thesis by blast
  next
    case False
    from each_in_turn_other_thread [OF False, where L = L and repo = repo and n = ?n and s = ?q]
      run_thread_to_return [OF k Cons.prems(2), where L = L and repo = repo]
    show ?thesis by simp
  qed
  with ih show ?case unfolding e by simp
qed

lemma join_threads_returns:
  "\<forall>w \<in> set ws. \<exists>r. w = Returned r \<Longrightarrow> join_threads os ws i \<noteq> None"
  by (induction ws arbitrary: i) (auto split: option.splits)



subsection \<open>The number of threads\<close>

definition thread_of :: "event \<Rightarrow> nat" where
  "thread_of ev = (case ev of Run k \<Rightarrow> k | LockFails k \<Rightarrow> k | UnlockFails k \<Rightarrow> k)"

lemma absent_thread_idle:
  "length (threads p) \<le> thread_of ev \<Longrightarrow> commit_stat_task_proc L repo ev p = p"
  by (cases ev) (simp_all add: commit_stat_task_proc_def thread_of_def)

lemma fold_present_threads:
  "fold (commit_stat_task_proc L repo) (filter (\<lambda>ev. thread_of ev < length (threads p)) schedule) p =
     fold (commit_stat_task_proc L repo) schedule p"
proof (induction schedule arbitrary: p)
  case Nil
  show ?case by simp
next
  case (Cons ev evs)
  show ?case
  proof (cases "thread_of ev < length (threads p)")
    case True
    with Cons.IH [of "commit_stat_task_proc L repo ev p"] show ?thesis
      by (simp add: step_shape)
  next
    case False
    then have "commit_stat_task_proc L repo ev p = p"
      by (intro absent_thread_idle) simp
    with False Cons.IH [of p] show ?thesis by simp
  qed
qed

lemma returned_by_its_own_step:
  assumes "ev \<noteq> Run k" and "threads (commit_stat_task_proc L repo ev p) ! k = Returned None"
  shows "threads p ! k = Returned None"
proof (cases ev)
  case (Run j)
  with assms(1) have "k \<noteq> j" by simp
  from run_other_thread [OF this] assms(2) Run show ?thesis by simp
next
  case (LockFails j)
  with assms(2) show ?thesis
    by (cases "j = k") (auto simp: commit_stat_task_proc_def split: if_splits)
next
  case (UnlockFails j)
  with assms(2) show ?thesis
    by (cases "j = k") (auto simp: commit_stat_task_proc_def split: if_splits)
qed

lemma returned_thread_ran:
  "threads (fold (commit_stat_task_proc L repo) schedule p) ! k = Returned None \<Longrightarrow>
   threads p ! k \<noteq> Returned None \<Longrightarrow> Run k \<in> set schedule"
proof (induction schedule arbitrary: p)
  case Nil
  then show ?case by simp
next
  case (Cons ev evs)
  show ?case
  proof (cases "ev = Run k")
    case True
    then show ?thesis by simp
  next
    case False
    from returned_by_its_own_step [OF False] Cons.prems(2)
    have "threads (commit_stat_task_proc L repo ev p) ! k \<noteq> Returned None" by blast
    from Cons.IH [OF _ this] Cons.prems(1) show ?thesis by simp
  qed
qed

lemma create_threads_fails:
  "k < n \<Longrightarrow> create_result os (i + k) \<noteq> 0 \<Longrightarrow> \<exists>e. create_threads os i n = Some e"
proof (induction n arbitrary: i k)
  case 0
  then show ?case by simp
next
  case (Suc n)
  show ?case
  proof (cases "create_result os i = 0")
    case False
    then show ?thesis by simp
  next
    case True
    with Suc.prems(2) have "k \<noteq> 0" by (cases k) auto
    then obtain k' where k': "k = Suc k'" by (cases k) auto
    with Suc.prems have "k' < n" "create_result os (Suc i + k') \<noteq> 0" by simp_all
    from Suc.IH [OF this] True show ?thesis by simp
  qed
qed

lemma run_threads_present:
  "run_threads L repo ts n (filter (\<lambda>ev. thread_of ev < n) schedule) =
     run_threads L repo ts n schedule"
  using fold_present_threads [of L repo
      "\<lparr>top = 0, tasks_nr = word_of_nat (length ts), tasks = ts, threads = replicate n AtLock\<rparr>"
      schedule]
  by (simp add: run_threads_def)

lemma nr_threads_min: "nr_threads L arrlen = min (git_online_cpus L) arrlen"
  by (simp add: nr_threads_def min_def)

subsection \<open>The results\<close>

text \<open>
  C3 (as the code has it), for a batch of \<open>N < 2\<^sup>3\<^sup>1\<close> commits, which the \<^verbatim>\<open>int\<close> counter
  can count. \<^verbatim>\<open>Commit.stats\<close> runs \<open>min(git_online_cpus(), N)\<close> threads: it does not
  return its array before each of them has run, the steps of any other thread change
  nothing, and a \<^verbatim>\<open>pthread_create\<close> that fails for one of them ends the call with a
  \<^verbatim>\<open>SystemCallError\<close>. Whenever it returns an array, under whatever schedule of the
  threads, the array has one statistics object per commit, in the order of the input: the
  one at index \<open>i\<close> is what \<^verbatim>\<open>rugged_commit_stats_of\<close> gives for commit \<open>i\<close>, with its id,
  author and committer and the counts of the diff of its tree against the tree of its first
  parent. And every schedule can be continued so that the function returns.
\<close>

theorem stats_batch_in_input_order:
  assumes small: "length commits < 2 ^ 31"
  shows
  "(rb_git_commit_stats L os repo commits schedule = Some (Inr v) \<longrightarrow>
      (\<forall>k < min (git_online_cpus L) (length commits). Run k \<in> set schedule)) \<and>
   rb_git_commit_stats L os repo commits
       (filter (\<lambda>ev. thread_of ev < min (git_online_cpus L) (length commits)) schedule) =
     rb_git_commit_stats L os repo commits schedule \<and>
   (mutex_init_result os = 0 \<longrightarrow> prepare_tasks repo commits = Inr ts \<longrightarrow>
    j < min (git_online_cpus L) (length commits) \<longrightarrow> create_result os j \<noteq> 0 \<longrightarrow>
      (\<exists>e. rb_git_commit_stats L os repo commits schedule = Some (Inl (SystemCallError e)))) \<and>
   (0 < git_online_cpus L \<longrightarrow>
    rb_git_commit_stats L os repo commits schedule = Some (Inr v) \<longrightarrow>
      (\<exists>results. v = RArray (map RStats results) \<and> length results = length commits \<and>
         (\<forall>i. i < length commits \<longrightarrow>
            rugged_commit_stats_of L repo (commits ! i) None = Inr (results ! i) \<and>
            stats_oid (results ! i) = fst (commits ! i) \<and>
            stats_author (results ! i) = author (snd (commits ! i)) \<and>
            stats_committer (results ! i) = committer (snd (commits ! i)) \<and>
            (\<exists>tree parent_tree.
               git_commit_tree repo (commits ! i) = Inr tree \<and>
               first_parent_tree repo (commits ! i) = Inr parent_tree \<and>
               git_commit_stats_of L repo tree parent_tree None =
                 Inr (adds (results ! i), dels (results ! i)))))) \<and>
   rb_git_commit_stats L os repo commits
     (schedule @ each_in_turn (length commits) [0..<min (git_online_cpus L) (length commits)]) \<noteq> None"
proof -
  let ?n = "min (git_online_cpus L) (length commits)"
  have big: "length ps < 2 ^ 63" if "length ps = length commits" for ps :: "commit_stat_task list"
  proof -
    from small that have "length ps < 2 ^ 31" by simp
    then show ?thesis by (rule less_trans) simp
  qed
  have ran: "\<forall>k < ?n. Run k \<in> set schedule"
    if ret: "rb_git_commit_stats L os repo commits schedule = Some (Inr v)"
  proof (intro allI impI)
    fix k assume k: "k < ?n"
    from ret obtain ps where prep: "prepare_tasks repo commits = Inr ps"
      by (auto simp: rb_git_commit_stats_def Let_def split: if_splits sum.splits)
    let ?p = "run_threads L repo ps ?n schedule"
    from ret prep have joined: "join_threads os (threads ?p) 0 = Some None"
      by (auto simp: rb_git_commit_stats_def nr_threads_min Let_def split: if_splits option.splits)
    from prepare_tasks_nth [OF prep] have "length ps = length commits" by simp
    from pool_inv_run_threads [OF big [OF this], of L repo ?n schedule]
    have "length (threads ?p) = ?n" by (simp add: pool_inv_def)
    with k have "threads ?p ! k \<in> set (threads ?p)" by simp
    with join_threads_all_fine [OF joined] have r: "threads ?p ! k = Returned None" by blast
    let ?start = "\<lparr>top = 0, tasks_nr = word_of_nat (length ps), tasks = ps,
        threads = replicate ?n AtLock\<rparr>"
    have "replicate ?n AtLock ! k = AtLock" using k by (rule nth_replicate)
    then have "threads ?start ! k \<noteq> Returned None" by simp
    from returned_thread_ran [OF _ this, of L repo schedule] r
    show "Run k \<in> set schedule" by (simp add: run_threads_def)
  qed
  have only: "rb_git_commit_stats L os repo commits (filter (\<lambda>ev. thread_of ev < ?n) schedule) =
      rb_git_commit_stats L os repo commits schedule"
  proof -
    have f: "(\<lambda>ev. thread_of ev < ?n) = (\<lambda>ev. thread_of ev < nr_threads L (length commits))"
      by (simp only: nr_threads_min)
    show ?thesis
      unfolding f rb_git_commit_stats_def Let_def run_threads_present ..
  qed
  have created: "\<exists>e. rb_git_commit_stats L os repo commits schedule = Some (Inl (SystemCallError e))"
    if "mutex_init_result os = 0" "prepare_tasks repo commits = Inr ts" "j < ?n"
      "create_result os j \<noteq> 0"
  proof -
    from create_threads_fails [of j ?n os 0] that(3,4)
    obtain e where "create_threads os 0 ?n = Some e" by auto
    with that(1,2) show ?thesis
      by (simp add: rb_git_commit_stats_def nr_threads_min)
  qed
  have order: "\<exists>results. v = RArray (map RStats results) \<and> length results = length commits \<and>
         (\<forall>i. i < length commits \<longrightarrow>
            rugged_commit_stats_of L repo (commits ! i) None = Inr (results ! i) \<and>
            stats_oid (results ! i) = fst (commits ! i) \<and>
            stats_author (results ! i) = author (snd (commits ! i)) \<and>
            stats_committer (results ! i) = committer (snd (commits ! i)) \<and>
            (\<exists>tree parent_tree.
               git_commit_tree repo (commits ! i) = Inr tree \<and>
               first_parent_tree repo (commits ! i) = Inr parent_tree \<and>
               git_commit_stats_of L repo tree parent_tree None =
                 Inr (adds (results ! i), dels (results ! i))))"
    if cpus: "0 < git_online_cpus L"
      and ret: "rb_git_commit_stats L os repo commits schedule = Some (Inr v)"
  proof -
    from ret obtain ps where prep: "prepare_tasks repo commits = Inr ps"
      by (auto simp: rb_git_commit_stats_def Let_def split: if_splits sum.splits)
    let ?p = "run_threads L repo ps ?n schedule"
    from ret prep have joined: "join_threads os (threads ?p) 0 = Some None"
      and v: "v = RArray (map (RStats \<circ> task_stats) (tasks ?p))"
      by (auto simp: rb_git_commit_stats_def nr_threads_min Let_def split: if_splits option.splits)
    from join_threads_all_fine [OF joined]
    have fine: "\<forall>w \<in> set (threads ?p). w = Returned None" .
    from prepare_tasks_nth [OF prep]
    have len: "length ps = length commits"
      and nth: "\<forall>i < length commits. prepare_task repo (commits ! i) = Inr (ps ! i)"
      by simp_all
    have inv: "pool_inv L repo ps ?n ?p" by (rule pool_inv_run_threads [OF big [OF len]])
    from inv len small have all: "claimable ?p = length ps"
      by (simp add: pool_inv_def claimable_def)
    have "task_done L repo (ps ! i) (tasks ?p ! i)" if i: "i < length commits" for i
    proof -
      from i cpus have "0 < ?n" by auto
      moreover from inv have "length (threads ?p) = ?n" by (simp add: pool_inv_def)
      ultimately have "0 < length (threads ?p)" by (simp only:)
      then have "threads ?p \<noteq> []" by simp
      with fine have "Returned None \<in> set (threads ?p)"
        by (metis hd_in_set)
      with inv all have "unat (top ?p) = length ps" by (simp add: pool_inv_def)
      with inv i len have "task_done L repo (ps ! i) (tasks ?p ! i) \<or> Claimed i \<in> set (threads ?p) \<or>
          (\<exists>f. Returned (Some f) \<in> set (threads ?p))"
        by (simp add: pool_inv_def)
      with fine show ?thesis by auto
    qed
    with nth have each: "\<forall>i < length commits.
        prepare_task repo (commits ! i) = Inr (ps ! i) \<and> task_done L repo (ps ! i) (tasks ?p ! i)"
      by simp
    let ?results = "map task_stats (tasks ?p)"
    from inv len have l: "length ?results = length commits" by (simp add: pool_inv_def)
    have "rugged_commit_stats_of L repo (commits ! i) None = Inr (?results ! i) \<and>
            stats_oid (?results ! i) = fst (commits ! i) \<and>
            stats_author (?results ! i) = author (snd (commits ! i)) \<and>
            stats_committer (?results ! i) = committer (snd (commits ! i)) \<and>
            (\<exists>tree parent_tree.
               git_commit_tree repo (commits ! i) = Inr tree \<and>
               first_parent_tree repo (commits ! i) = Inr parent_tree \<and>
               git_commit_stats_of L repo tree parent_tree None =
                 Inr (adds (?results ! i), dels (?results ! i)))"
      if i: "i < length commits" for i
    proof -
      from each i have "prepare_task repo (commits ! i) = Inr (ps ! i)"
        "task_done L repo (ps ! i) (tasks ?p ! i)"
        by simp_all
      from prepared_task_done [OF this] i l show ?thesis by simp
    qed
    moreover have "v = RArray (map RStats ?results)" using v by simp
    ultimately show ?thesis using l by blast
  qed
  have returns: "rb_git_commit_stats L os repo commits
      (schedule @ each_in_turn (length commits) [0..<?n]) \<noteq> None"
  proof (cases "prepare_tasks repo commits")
    case (Inl f)
    then show ?thesis by (simp add: rb_git_commit_stats_def Let_def)
  next
    case (Inr ps)
    let ?p = "run_threads L repo ps ?n schedule"
    let ?q = "run_threads L repo ps ?n (schedule @ each_in_turn (length commits) [0..<?n])"
    from prepare_tasks_nth [OF Inr] have len: "length ps = length commits" by simp
    have inv: "pool_inv L repo ps ?n ?p" by (rule pool_inv_run_threads [OF big [OF len]])
    from len inv have n: "length (tasks ?p) = length commits"
      and t: "length (threads ?p) = ?n" and ok: "counter_ok ?p"
      by (simp_all add: pool_inv_def)
    have q: "?q = fold (commit_stat_task_proc L repo) (each_in_turn (length (tasks ?p)) [0..<?n]) ?p"
      unfolding n by (simp add: run_threads_def)
    have "\<forall>k \<in> set [0..<?n]. k < length (threads ?p)" using t by simp
    from each_in_turn_returns [OF this ok, of L repo]
    have r: "\<forall>k < ?n. \<exists>r. threads ?q ! k = Returned r" and l: "length (threads ?q) = ?n"
      unfolding q using t by simp_all
    have "\<forall>w \<in> set (threads ?q). \<exists>r. w = Returned r"
      using r l by (auto simp: in_set_conv_nth)
    from join_threads_returns [OF this, of os 0] obtain y where
      "join_threads os (threads ?q) 0 = Some y" by auto
    with Inr show ?thesis
      by (simp add: rb_git_commit_stats_def nr_threads_min Let_def split: option.splits)
  qed
  from ran only created order returns show ?thesis by blast
qed

text \<open>Three commits on three threads, under a schedule that interleaves them.\<close>

definition ok_pthreads :: pthreads where
  "ok_pthreads = \<lparr>mutex_init_result = 0, create_result = (\<lambda>i. 0), join_result = (\<lambda>i. 0)\<rparr>"

definition interleaved :: "event list" where
  "interleaved = [Run 1, Run 0, Run 2, Run 2, Run 0, Run 1, Run 1, Run 0, Run 2]"

definition stats_of_root :: commit_stats where
  "stats_of_root = \<lparr>adds = 2, dels = 0, stats_committer = sig_at 100, stats_author = sig_at 100,
                     stats_oid = 1\<rparr>"

definition stats_of_child :: commit_stats where
  "stats_of_child = \<lparr>adds = 4, dels = 2, stats_committer = sig_at 200, stats_author = sig_at 200,
                      stats_oid = 2\<rparr>"

definition stats_of_side :: commit_stats where
  "stats_of_side = \<lparr>adds = 2, dels = 0, stats_committer = sig_at 250, stats_author = sig_at 250,
                     stats_oid = 4\<rparr>"

theorem stats_batch_in_input_order_witness:
  "length [root_commit, child_commit, side_commit] < 2 ^ 31 \<and>
   0 < git_online_cpus example_library \<and>
   min (git_online_cpus example_library) (length [root_commit, child_commit, side_commit]) = 3 \<and>
   rb_git_commit_stats example_library ok_pthreads example_repo
       [root_commit, child_commit, side_commit] interleaved =
     Some (Inr (RArray (map RStats [stats_of_root, stats_of_child, stats_of_side]))) \<and>
   Run 2 \<in> set interleaved \<and>
   rb_git_commit_stats example_library ok_pthreads example_repo
       [root_commit, child_commit, side_commit] (LockFails 3 # interleaved @ [Run 7]) =
     Some (Inr (RArray (map RStats [stats_of_root, stats_of_child, stats_of_side]))) \<and>
   rb_git_commit_stats example_library (ok_pthreads\<lparr>create_result := (\<lambda>i. if i = 2 then 11 else 0)\<rparr>)
       example_repo [root_commit, child_commit, side_commit] interleaved =
     Some (Inl (SystemCallError 11)) \<and>
   rugged_commit_stats_of example_library example_repo child_commit None = Inr stats_of_child"
proof -
  let ?commits = "[root_commit, child_commit, side_commit]"
  let ?v = "RArray (map RStats [stats_of_root, stats_of_child, stats_of_side])"
  let ?os = "ok_pthreads\<lparr>create_result := (\<lambda>i. if i = 2 then 11 else 0)\<rparr>"
  have small: "length ?commits < 2 ^ 31" by simp
  have cpus: "0 < git_online_cpus example_library"
    by (simp add: example_library_def)
  have n: "min (git_online_cpus example_library) (length ?commits) = 3"
    by (simp add: example_library_def)
  have ret: "rb_git_commit_stats example_library ok_pthreads example_repo ?commits interleaved =
      Some (Inr ?v)"
    by code_simp
  note t = stats_batch_in_input_order [OF small, where L = example_library and repo = example_repo]
  from t [where os = ok_pthreads and schedule = interleaved and v = ?v,
      THEN conjunct1, THEN mp, OF ret] n
  have ran: "Run 2 \<in> set interleaved" by simp
  have f: "filter (\<lambda>ev. thread_of ev < 3) (LockFails 3 # interleaved @ [Run 7]) = interleaved"
    by (simp add: interleaved_def thread_of_def)
  from t [where os = ok_pthreads and schedule = "LockFails 3 # interleaved @ [Run 7]",
      THEN conjunct2, THEN conjunct1] ret
  have extra: "rb_git_commit_stats example_library ok_pthreads example_repo ?commits
      (LockFails 3 # interleaved @ [Run 7]) = Some (Inr ?v)"
    unfolding n f by simp
  have m: "mutex_init_result ?os = 0" by (simp add: ok_pthreads_def)
  obtain ts where p: "prepare_tasks example_repo ?commits = Inr ts"
    using ret by (auto simp: rb_git_commit_stats_def Let_def split: if_splits sum.splits)
  have c: "(2::nat) < min (git_online_cpus example_library) (length ?commits)"
    unfolding n by simp
  have r: "create_result ?os 2 \<noteq> 0" by simp
  from t [where os = ?os and schedule = interleaved and ts = ts and j = 2,
      THEN conjunct2, THEN conjunct2, THEN conjunct1, THEN mp, THEN mp, THEN mp, THEN mp, OF m p c r]
  obtain e where e: "rb_git_commit_stats example_library ?os example_repo ?commits interleaved =
    Some (Inl (SystemCallError e))" ..
  have "rb_git_commit_stats example_library ?os example_repo ?commits interleaved =
    Some (Inl (SystemCallError 11))"
    by code_simp
  note failed = this
  from t [where os = ok_pthreads and schedule = interleaved and v = ?v,
      THEN conjunct2, THEN conjunct2, THEN conjunct2, THEN conjunct1, THEN mp, THEN mp, OF cpus ret]
  obtain results where r: "?v = RArray (map RStats results)"
    and each: "\<forall>i. i < length ?commits \<longrightarrow>
       rugged_commit_stats_of example_library example_repo (?commits ! i) None = Inr (results ! i)"
    by blast
  from r have "map RStats results = map RStats [stats_of_root, stats_of_child, stats_of_side]"
    by simp
  moreover have "inj RStats" by (simp add: inj_on_def)
  ultimately have "results = [stats_of_root, stats_of_child, stats_of_side]"
    by (simp only: inj_map_eq_map)
  with each [rule_format, of 1]
  have "rugged_commit_stats_of example_library example_repo child_commit None = Inr stats_of_child"
    by simp
  with small cpus n ret ran extra failed show ?thesis by simp
qed

subsection \<open>A batch that outruns the counter\<close>

definition many_commits :: "git_commit list" where
  "many_commits = replicate 2147483648 root_commit @ [child_commit]"

definition one_by_one :: "event list" where
  "one_by_one = each_in_turn 2147483649 [0, 1, 2, 3]"

definition nth_result :: "(rb_exception + rb_value) option \<Rightarrow> nat \<Rightarrow> rb_value option" where
  "nth_result r i =
     (case r of
        Some (Inr (RArray rs)) \<Rightarrow> if i < length rs then Some (rs ! i) else None
      | _ \<Rightarrow> None)"

lemma prepare_tasks_append:
  "prepare_tasks repo cs = Inr ts \<Longrightarrow> prepare_tasks repo ds = Inr us \<Longrightarrow>
     prepare_tasks repo (cs @ ds) = Inr (ts @ us)"
  by (induction cs arbitrary: ts) (auto split: sum.splits)

lemma prepare_tasks_replicate:
  "prepare_task repo c = Inr t \<Longrightarrow> prepare_tasks repo (replicate n c) = Inr (replicate n t)"
  by (induction n) simp_all

lemma create_threads_all:
  "(\<And>k. create_result os k = 0) \<Longrightarrow> create_threads os i n = None"
  by (induction n arbitrary: i) simp_all

lemma join_threads_all:
  "\<forall>w \<in> set ws. w = Returned None \<Longrightarrow> (\<And>k. join_result os k = 0) \<Longrightarrow>
     join_threads os ws i = Some None"
  by (induction ws arbitrary: i) simp_all

lemma no_failure_step:
  assumes "\<And>t pt f. git_commit_stats_of L repo t pt None \<noteq> Inl f"
    and "\<forall>w \<in> set (threads p). \<forall>f. w \<noteq> Returned (Some f)"
  shows "\<forall>w \<in> set (threads (commit_stat_task_proc L repo (Run k) p)). \<forall>f. w \<noteq> Returned (Some f)"
proof (cases "k < length (threads p)")
  case False
  with assms(2) show ?thesis by (simp add: commit_stat_task_proc_def)
next
  case True
  show ?thesis
  proof (cases "threads p ! k")
    case AtLock
    with True assms(2) show ?thesis
      by (auto simp: commit_stat_task_proc_def take_task_def dest!: set_update_cases)
  next
    case (Claimed i)
    with True assms show ?thesis
      by (auto simp: commit_stat_task_proc_def compute_task_def Let_def split: sum.splits
          dest!: set_update_cases)
  next
    case (Returned r)
    with True assms(2) show ?thesis by (simp add: commit_stat_task_proc_def)
  qed
qed

lemma no_failure_each_in_turn:
  assumes "\<And>t pt f. git_commit_stats_of L repo t pt None \<noteq> Inl f"
  shows "\<forall>w \<in> set (threads p). \<forall>f. w \<noteq> Returned (Some f) \<Longrightarrow>
     \<forall>w \<in> set (threads (fold (commit_stat_task_proc L repo) (each_in_turn n ks) p)).
       \<forall>f. w \<noteq> Returned (Some f)"
proof (induction ks arbitrary: p)
  case Nil
  then show ?case by (simp add: each_in_turn_def)
next
  case (Cons k ks)
  have "\<forall>w \<in> set (threads ((commit_stat_task_proc L repo (Run k) ^^ m) p)). \<forall>f. w \<noteq> Returned (Some f)"
    for m
  proof (induction m)
    case 0
    from Cons.prems show ?case by simp
  next
    case (Suc m)
    from no_failure_step [OF assms Suc, of k] show ?case by simp
  qed
  from Cons.IH [OF this] show ?case
    by (simp only: fold_each_in_turn_Cons)
qed

lemma example_stats_never_fail:
  "git_commit_stats_of example_library repo t pt None \<noteq> Inl f"
  by (simp add: git_commit_stats_of_def example_library_def example_diff_tree_to_tree_def Let_def)

text \<open>
  C3 as the specification states it fails, for a batch of \<open>2\<^sup>3\<^sup>1 + 1\<close> commits on the four
  threads of the example: after the task at index \<open>2\<^sup>3\<^sup>1 - 1\<close> the counter is negative, every
  thread finds it above the number of tasks and returns, and the statistics of the last
  commit come back with the zero counts they were prepared with, where the commit adds four
  lines and deletes two.
\<close>

theorem stats_batch_counter_wraps:
  "length many_commits = 2147483649 \<and>
   many_commits ! 2147483648 = child_commit \<and>
   nth_result (rb_git_commit_stats example_library ok_pthreads example_repo many_commits one_by_one)
       2147483648 =
     Some (RStats (new_commit_stats child_commit)) \<and>
   adds (new_commit_stats child_commit) = 0 \<and>
   dels (new_commit_stats child_commit) = 0 \<and>
   rugged_commit_stats_of example_library example_repo child_commit None = Inr stats_of_child \<and>
   adds stats_of_child = 4 \<and> dels stats_of_child = 2"
proof -
  let ?t_root = "\<lparr>task_tree = root_tree, task_parent_tree = None,
      task_stats = new_commit_stats root_commit\<rparr>"
  let ?t_child = "\<lparr>task_tree = child_tree, task_parent_tree = Some root_tree,
      task_stats = new_commit_stats child_commit\<rparr>"
  let ?ts = "replicate 2147483648 ?t_root @ [?t_child]"
  let ?schedule = "one_by_one"
  let ?start = "\<lparr>top = 0, tasks_nr = word_of_nat (length ?ts), tasks = ?ts,
      threads = replicate 4 AtLock\<rparr>"
  let ?p = "run_threads example_library example_repo ?ts 4 ?schedule"
  have len: "length many_commits = 2147483649" by (simp add: many_commits_def)
  have last: "many_commits ! 2147483648 = child_commit"
    by (simp add: many_commits_def nth_append)
  have lts: "length ?ts = 2147483649" by simp
  have big: "length ?ts < 2 ^ 63" by simp
  have pr: "prepare_task example_repo root_commit = Inr ?t_root"
    by (simp add: prepare_task_def first_parent_tree_def git_commit_parent_def
        git_commit_parent_id_def no_such_parent_def GIT_ENOTFOUND_def git_commit_tree_def
        git_tree_lookup_def example_repo_def example_objects_def root_commit_def root_tree_def)
  have pc: "prepare_task example_repo child_commit = Inr ?t_child"
    by (simp add: prepare_task_def first_parent_tree_def git_commit_parent_def
        git_commit_parent_id_def git_commit_lookup_def git_commit_tree_def
        git_tree_lookup_def example_repo_def example_objects_def root_commit_def root_tree_def
        child_commit_def child_tree_def)
  have prep: "prepare_tasks example_repo many_commits = Inr ?ts"
    unfolding many_commits_def
    by (rule prepare_tasks_append [OF prepare_tasks_replicate [OF pr]]) (simp add: pc)
  have n: "nr_threads example_library (length many_commits) = 4"
    by (simp add: nr_threads_def example_library_def len)
  have inv: "pool_inv example_library example_repo ?ts 4 ?p"
    by (rule pool_inv_run_threads [OF big])
  have start: "pool_inv example_library example_repo ?ts 4 ?start"
    by (rule pool_inv_start [OF big])
  then have ok: "counter_ok ?start" by (simp add: pool_inv_def)
  have p: "?p = fold (commit_stat_task_proc example_library example_repo)
      (each_in_turn (length (tasks ?start)) [0, 1, 2, 3]) ?start"
    by (simp add: run_threads_def one_by_one_def)
  have "\<forall>k \<in> set [0, 1, 2, 3]. k < length (threads ?start)" by simp
  from each_in_turn_returns [OF this ok, of example_library example_repo]
  have returned: "\<forall>k \<in> set [0, 1, 2, 3]. \<exists>r. threads ?p ! k = Returned r"
    and four: "length (threads ?p) = 4"
    unfolding p by simp_all
  have "\<forall>w \<in> set (threads ?start). \<forall>f. w \<noteq> Returned (Some f)" by simp
  from no_failure_each_in_turn [OF example_stats_never_fail this]
  have sound: "\<forall>w \<in> set (threads ?p). \<forall>f. w \<noteq> Returned (Some f)"
    unfolding p .
  have fine: "\<forall>w \<in> set (threads ?p). w = Returned None"
  proof
    fix w assume w: "w \<in> set (threads ?p)"
    then obtain k where k: "k < 4" "threads ?p ! k = w"
      using four by (auto simp: in_set_conv_nth)
    then have "k \<in> set [0, 1, 2, 3]" by auto
    with returned k obtain r where "w = Returned r" by auto
    with sound w show "w = Returned None" by (cases r) auto
  qed
  have joined: "join_threads ok_pthreads (threads ?p) 0 = Some None"
    by (rule join_threads_all [OF fine]) (simp add: ok_pthreads_def)
  have mu: "mutex_init_result ok_pthreads = 0" by (simp add: ok_pthreads_def)
  have created: "create_threads ok_pthreads 0 4 = None"
    by (rule create_threads_all) (simp add: ok_pthreads_def)
  have ret: "rb_git_commit_stats example_library ok_pthreads example_repo many_commits ?schedule =
      Some (Inr (RArray (map (RStats \<circ> task_stats) (tasks ?p))))"
    by (simp add: rb_git_commit_stats_def Let_def prep n created joined mu)
  from inv have lp: "length (tasks ?p) = 2147483649" by (simp add: pool_inv_def)
  then have "claimable ?p = 2147483648" by (simp add: claimable_def)
  with inv have "tasks ?p ! 2147483648 = ?ts ! 2147483648"
    by (simp add: pool_inv_def)
  also have "\<dots> = ?t_child" by (simp add: nth_append)
  finally have untouched: "tasks ?p ! 2147483648 = ?t_child" .
  have "nth_result (rb_git_commit_stats example_library ok_pthreads example_repo many_commits
      ?schedule) 2147483648 = Some (RStats (new_commit_stats child_commit))"
    by (simp add: ret nth_result_def lp untouched)
  moreover have "adds (new_commit_stats child_commit) = 0" "dels (new_commit_stats child_commit) = 0"
    by (simp_all add: new_commit_stats_def)
  moreover have "rugged_commit_stats_of example_library example_repo child_commit None =
      Inr stats_of_child"
    by code_simp
  moreover have "adds stats_of_child = 4" "dels stats_of_child = 2"
    by (simp_all add: stats_of_child_def)
  ultimately show ?thesis using len last by simp
qed

end
